theory Spec2Isabelle
  imports Main "HOL-Library.Char_ord" "HOL-Library.List_Lexorder" "HOL-Library.Product_Lexorder"
    "HOL-Library.Multiset"
begin

section \<open>The relational store\<close>

text \<open>
  The program (\<^verbatim>\<open>internal/database/database.go\<close>) talks to a PostgreSQL/TimescaleDB
  store through SQL text and to a reasoner through HTTP.  The store is modelled as a
  record of relations; a relation is the list of its rows, in the order in which the
  rows were inserted.  Every SQL statement of the source becomes a function on that
  record, and every call that can return an error in the source is a branch that
  returns one here.

  Timestamps are integers (ticks of the store's clock).  The type of a reading's value
  (\<^verbatim>\<open>float64\<close> in the source) is a type variable: the functions modelled here only
  move values around.
\<close>

type_synonym timestamp = int

record stream_row =
  st_id :: int
  st_name :: string
  st_source :: string
  st_units :: string
  st_brick_uri :: "string option"
  st_brick_class :: "string option"

record 'v data_row =
  d_time :: timestamp
  d_stream_id :: int
  d_value :: 'v

record triple_row =
  t_source :: string
  t_origin :: string
  t_time :: timestamp
  t_s :: string
  t_p :: string
  t_o :: string

record auth_row =
  a_apikey :: string
  a_permission :: string
  a_source :: string

text \<open>
  \<open>streams_seq\<close> is the sequence behind \<^verbatim>\<open>streams.id DEFAULT\<close>.  \<open>data_temp\<close> and
  \<open>triplet\<close> are the two staging relations the source creates with
  \<^verbatim>\<open>CREATE TEMP TABLE\<close>; \<open>None\<close> means that the relation does not exist.
\<close>

record 'v db =
  streams :: "stream_row list"
  streams_seq :: int
  data :: "'v data_row list"
  triples :: "triple_row list"
  authorizations :: "auth_row list"
  data_temp :: "'v data_row list option"
  triplet :: "triple_row list option"

subsection \<open>Calls that can fail, and the errors of the source\<close>

text \<open>
  Each round trip to the store can fail for reasons outside the program (a lost
  connection, the deadline of the call's context).  \<open>stage\<close> names the round trips;
  a function \<open>flt :: stage \<Rightarrow> bool\<close> says which of them fail in a run.
\<close>

datatype stage =
    AuthQuery | Acquire | Begin | Commit | Rollback
  | UpsertStream | InsertTypeTriple
  | SelectStreamId | CreateTemp | CopyFrom | Merge | DropTemp
  | GraphQuery | GraphsQuery | IdQuery | MetadataQuery | DataQuery

text \<open>What an error wraps (the \<^verbatim>\<open>%w\<close> of the source's \<^verbatim>\<open>fmt.Errorf\<close>).\<close>

datatype cause =
    Invalid string
  | NoApikey
  | Fault stage
  | ErrNoRows
  | DuplicateTable
  | CardinalityViolation
  | ScanNull
  | Upstream string

text \<open>The errors a transaction body returns, one constructor per message of the source.\<close>

datatype txerr =
    CouldNotRegisterStream cause
  | NoSuchStream string string cause
  | CannotInsertReadings int cause
  | CannotInsertTriples string cause

text \<open>The errors of \<^verbatim>\<open>writeMetadataArrow\<close>: returned as they are, or wrapped.\<close>

datatype mderr =
    Unwrapped cause
  | CouldNotQuery cause
  | CouldNotWriteRecord cause

datatype error =
    CannotRegisterInvalidStream cause
  | CannotHandleInvalidDataset cause
  | CannotDetermineAuthorized cause
  | CannotWriteToSource string
  | CouldNotAcquire cause
  | CouldNotBegin cause
  | CouldNotRollback txerr cause
  | TransactionExecution txerr
  | TransactionCommit cause
  | QueryFailed cause
  | CouldNotScanRow cause
  | CouldNotDecodeTriple nat cause
  | CouldNotEncodeTriple cause
  | EncoderClose cause
  | ErrorProcessingMetadata mderr
  | CouldNotQueryData cause
  | CouldNotWriteData cause
  | WriterClose cause

subsection \<open>The context of a call\<close>

text \<open>
  \<^verbatim>\<open>ctx.Value(ContextKey("user"))\<close> is the only value the source reads from its
  context; \<open>None\<close> is the \<^verbatim>\<open>nil\<close> of a context with no such key.
\<close>

record ctx =
  user :: "string option"

section \<open>checkAuth\<close>

text \<open>
  \<^verbatim>\<open>SELECT COUNT(*) FROM authorizations WHERE apikey = $1 AND permission = $2 and source = $3\<close>
\<close>

definition count_authorizations :: "string \<Rightarrow> string \<Rightarrow> string \<Rightarrow> 'v db \<Rightarrow> nat" where
  "count_authorizations apikey permission source d =
     length (filter (\<lambda>r. a_apikey r = apikey \<and> a_permission r = permission \<and> a_source r = source)
               (authorizations d))"

definition checkAuth :: "(stage \<Rightarrow> bool) \<Rightarrow> ctx \<Rightarrow> string \<Rightarrow> string \<Rightarrow> 'v db \<Rightarrow> cause + bool" where
  "checkAuth flt c permission source d =
     (case user c of
        None \<Rightarrow> Inl NoApikey
      | Some apikey \<Rightarrow>
          if flt AuthQuery then Inl (Fault AuthQuery)
          else Inr (count_authorizations apikey permission source d > 0))"

section \<open>RunAsTransaction\<close>

text \<open>
  The body \<open>f\<close> works on the store and returns the store it has reached together with
  its error, if any.  A commit makes that store the durable one.  After an error of the
  body, or a failed commit, the relations are those before the transaction: changes of
  a transaction that did not commit are never durable, whether or not the explicit
  \<^verbatim>\<open>ROLLBACK\<close> reached the store.  A sequence is not transactional: values taken
  from it stay taken.
\<close>

definition rolled_back :: "'v db \<Rightarrow> 'v db \<Rightarrow> 'v db" where
  "rolled_back before reached = before\<lparr>streams_seq := streams_seq reached\<rparr>"

definition RunAsTransaction ::
    "(stage \<Rightarrow> bool) \<Rightarrow> ('v db \<Rightarrow> txerr option \<times> 'v db) \<Rightarrow> 'v db \<Rightarrow> error option \<times> 'v db" where
  "RunAsTransaction flt f d =
     (if flt Acquire then (Some (CouldNotAcquire (Fault Acquire)), d)
      else if flt Begin then (Some (CouldNotBegin (Fault Begin)), d)
      else case f d of
        (Some e, d') \<Rightarrow>
          if flt Rollback then (Some (CouldNotRollback e (Fault Rollback)), rolled_back d d')
          else (Some (TransactionExecution e), rolled_back d d')
      | (None, d') \<Rightarrow>
          if flt Commit then (Some (TransactionCommit (Fault Commit)), rolled_back d d')
          else (None, d'))"

section \<open>RegisterStream\<close>

text \<open>The argument of \<^verbatim>\<open>RegisterStream\<close>; the fields are those the source reads.\<close>

record Stream =
  Name :: string
  SourceName :: string
  Units :: string
  BrickURI :: string
  BrickClass :: string

text \<open>
  \<^verbatim>\<open>INSERT INTO streams(id, name, source, units, brick_uri, brick_class)
  VALUES(DEFAULT, $1, $2, $3, $4, $5) ON CONFLICT (source, name) DO UPDATE
  SET brick_uri = EXCLUDED.brick_uri, brick_class = EXCLUDED.brick_class, units = EXCLUDED.units\<close>

  The default of \<open>id\<close> is taken from the sequence before the conflict is detected, so
  the sequence advances in both branches.
\<close>

definition same_stream :: "string \<Rightarrow> string \<Rightarrow> stream_row \<Rightarrow> bool" where
  "same_stream src nm r = (st_source r = src \<and> st_name r = nm)"

definition do_update :: "string \<Rightarrow> string \<Rightarrow> string \<Rightarrow> string option \<Rightarrow> string option
    \<Rightarrow> stream_row \<Rightarrow> stream_row" where
  "do_update nm src un bu bc r =
     (if same_stream src nm r
      then r\<lparr>st_brick_uri := bu, st_brick_class := bc, st_units := un\<rparr>
      else r)"

definition upsert_stream ::
    "string \<Rightarrow> string \<Rightarrow> string \<Rightarrow> string option \<Rightarrow> string option \<Rightarrow> 'v db \<Rightarrow> 'v db" where
  "upsert_stream nm src un bu bc d =
     (let i = streams_seq d;
          rows =
            (if \<exists>r \<in> set (streams d). same_stream src nm r
             then map (do_update nm src un bu bc) (streams d)
             else streams d @
                    [\<lparr>st_id = i, st_name = nm, st_source = src, st_units = un,
                      st_brick_uri = bu, st_brick_class = bc\<rparr>])
      in d\<lparr>streams := rows, streams_seq := i + 1\<rparr>)"

text \<open>
  \<^verbatim>\<open>INSERT INTO triples(source, origin, time, s, p, o) VALUES($1, $2, $3, $4, $5, $6)
  ON CONFLICT DO NOTHING\<close>: the row is added unless an equal row (the relation is
  unique on all six columns) is there.
\<close>

definition insert_triple :: "triple_row \<Rightarrow> 'v db \<Rightarrow> 'v db" where
  "insert_triple r d = (if r \<in> set (triples d) then d else d\<lparr>triples := triples d @ [r]\<rparr>)"

definition rdf_type :: string where
  "rdf_type = ''<http://www.w3.org/1999/02/22-rdf-syntax-ns#type>''"

definition brick_point :: string where
  "brick_point = ''<https://brickschema.org/schema/Brick#Point>''"

definition bracket :: "string \<Rightarrow> string" where
  "bracket u = ''<'' @ u @ ''>''"

definition classification_triple :: "Stream \<Rightarrow> timestamp \<Rightarrow> triple_row" where
  "classification_triple stream now =
     \<lparr>t_source = SourceName stream, t_origin = ''stream_registration'', t_time = now,
      t_s = bracket (BrickURI stream), t_p = rdf_type,
      t_o = (if BrickClass stream \<noteq> [] then bracket (BrickClass stream) else brick_point)\<rparr>"

text \<open>
  The body of the transaction.  \<open>now\<close> is what \<^verbatim>\<open>time.Now()\<close> returns when the
  triple is inserted.
\<close>

definition register_txn ::
    "(stage \<Rightarrow> bool) \<Rightarrow> timestamp \<Rightarrow> Stream \<Rightarrow> 'v db \<Rightarrow> txerr option \<times> 'v db" where
  "register_txn flt now stream d =
     (let brickURI = (if BrickURI stream \<noteq> [] then Some (BrickURI stream) else None);
          brickClass = (if BrickClass stream \<noteq> [] then Some (BrickClass stream) else None)
      in if flt UpsertStream then (Some (CouldNotRegisterStream (Fault UpsertStream)), d)
         else
           let d1 = upsert_stream (Name stream) (SourceName stream) (Units stream)
                      brickURI brickClass d
           in if brickURI \<noteq> None
              then if flt InsertTypeTriple
                   then (Some (CouldNotRegisterStream (Fault InsertTypeTriple)), d1)
                   else (None, insert_triple (classification_triple stream now) d1)
              else (None, d1))"

text \<open>
  \<open>checkStream\<close> is not in the source file; it is a parameter, returning the reason
  for which it rejects a stream.
\<close>

definition RegisterStream ::
    "(Stream \<Rightarrow> string option) \<Rightarrow> (stage \<Rightarrow> bool) \<Rightarrow> ctx \<Rightarrow> timestamp \<Rightarrow> Stream \<Rightarrow> 'v db
      \<Rightarrow> error option \<times> 'v db" where
  "RegisterStream checkStream flt c now stream d =
     (case checkStream stream of
        Some why \<Rightarrow> (Some (CannotRegisterInvalidStream (Invalid why)), d)
      | None \<Rightarrow>
          (case checkAuth flt c ''write'' (SourceName stream) d of
             Inl e \<Rightarrow> (Some (CannotDetermineAuthorized e), d)
           | Inr authorized \<Rightarrow>
               if \<not> authorized then (Some (CannotWriteToSource (SourceName stream)), d)
               else RunAsTransaction flt (register_txn flt now stream) d))"

section \<open>InsertHistoricalData\<close>

text \<open>
  A dataset names its stream and carries its readings; the source reads it through
  \<^verbatim>\<open>GetSource\<close>, \<^verbatim>\<open>GetName\<close>, \<^verbatim>\<open>SetId\<close> and, as the
  source of \<^verbatim>\<open>CopyFrom\<close>, row by row in the order of the readings.
\<close>

record 'v Dataset =
  GetSource :: string
  GetName :: string
  GetReadings :: "(timestamp \<times> 'v) list"

text \<open>\<^verbatim>\<open>SELECT id FROM streams WHERE source=$1 AND name=$2\<close>, scanned by \<^verbatim>\<open>QueryRow\<close>:
  the first row, or \<^verbatim>\<open>ErrNoRows\<close>.\<close>

definition select_stream_id :: "string \<Rightarrow> string \<Rightarrow> 'v db \<Rightarrow> cause + int" where
  "select_stream_id src nm d =
     (case filter (same_stream src nm) (streams d) of
        [] \<Rightarrow> Inl ErrNoRows
      | r # _ \<Rightarrow> Inr (st_id r))"

text \<open>The rows \<^verbatim>\<open>CopyFrom\<close> reads from the dataset once \<^verbatim>\<open>SetId\<close> has been called.\<close>

definition staged_readings :: "int \<Rightarrow> 'v Dataset \<Rightarrow> 'v data_row list" where
  "staged_readings stream_id ds =
     map (\<lambda>(t, v). \<lparr>d_time = t, d_stream_id = stream_id, d_value = v\<rparr>) (GetReadings ds)"

text \<open>
  \<^verbatim>\<open>INSERT INTO data SELECT * FROM data_temp ON CONFLICT (time, stream_id) DO UPDATE
  SET value = EXCLUDED.value\<close>

  The staged rows are proposed one after the other.  A proposed row whose key
  \<open>(time, stream_id)\<close> is in the relation overwrites the value of that row; otherwise it
  is inserted.  PostgreSQL does not let one such command affect a row twice: when a
  proposed row meets a row that the same command inserted or updated, the command fails
  with a cardinality violation (``ON CONFLICT DO UPDATE command cannot affect row a second
  time'').  \<open>touched\<close> holds the keys the command has affected so far.
\<close>

definition data_key :: "'v data_row \<Rightarrow> timestamp \<times> int" where
  "data_key r = (d_time r, d_stream_id r)"

definition set_value :: "'v data_row \<Rightarrow> 'v data_row \<Rightarrow> 'v data_row" where
  "set_value excluded r = (if data_key r = data_key excluded then r\<lparr>d_value := d_value excluded\<rparr> else r)"

definition upsert_reading :: "'v data_row \<Rightarrow> 'v data_row list \<Rightarrow> 'v data_row list" where
  "upsert_reading r rows =
     (if \<exists>x \<in> set rows. data_key x = data_key r then map (set_value r) rows else rows @ [r])"

fun merge_data ::
    "'v data_row list \<Rightarrow> (timestamp \<times> int) list \<Rightarrow> 'v data_row list \<Rightarrow> cause + 'v data_row list" where
  "merge_data [] touched rows = Inr rows"
| "merge_data (r # staged) touched rows =
     (if data_key r \<in> set touched then Inl CardinalityViolation
      else merge_data staged (data_key r # touched) (upsert_reading r rows))"

text \<open>The body of the transaction of \<^verbatim>\<open>InsertHistoricalData\<close>.\<close>

definition insert_txn :: "(stage \<Rightarrow> bool) \<Rightarrow> 'v Dataset \<Rightarrow> 'v db \<Rightarrow> txerr option \<times> 'v db" where
  "insert_txn flt ds d =
     (case (if flt SelectStreamId then Inl (Fault SelectStreamId)
            else select_stream_id (GetSource ds) (GetName ds) d) of
        Inl e \<Rightarrow> (Some (NoSuchStream (GetSource ds) (GetName ds) e), d)
      | Inr stream_id \<Rightarrow>
          if flt CreateTemp then (Some (CannotInsertReadings stream_id (Fault CreateTemp)), d)
          else if data_temp d \<noteq> None then (Some (CannotInsertReadings stream_id DuplicateTable), d)
          else
            let d1 = d\<lparr>data_temp := Some []\<rparr> in
            if flt CopyFrom then (Some (CannotInsertReadings stream_id (Fault CopyFrom)), d1)
            else
              let d2 = d1\<lparr>data_temp := Some (staged_readings stream_id ds)\<rparr> in
              if flt Merge then (Some (CannotInsertReadings stream_id (Fault Merge)), d2)
              else
                (case merge_data (staged_readings stream_id ds) [] (data d2) of
                   Inl e \<Rightarrow> (Some (CannotInsertReadings stream_id e), d2)
                 | Inr rows \<Rightarrow>
                     let d3 = d2\<lparr>data := rows\<rparr> in
                     if flt DropTemp then (Some (CannotInsertReadings stream_id (Fault DropTemp)), d3)
                     else (None, d3\<lparr>data_temp := None\<rparr>)))"

text \<open>\<open>checkDataset\<close> is not in the source file; it is a parameter.\<close>

definition InsertHistoricalData ::
    "('v Dataset \<Rightarrow> string option) \<Rightarrow> (stage \<Rightarrow> bool) \<Rightarrow> ctx \<Rightarrow> 'v Dataset \<Rightarrow> 'v db
      \<Rightarrow> error option \<times> 'v db" where
  "InsertHistoricalData checkDataset flt c ds d =
     (case checkDataset ds of
        Some why \<Rightarrow> (Some (CannotHandleInvalidDataset (Invalid why)), d)
      | None \<Rightarrow>
          (case checkAuth flt c ''write'' (GetSource ds) d of
             Inl e \<Rightarrow> (Some (CannotDetermineAuthorized e), d)
           | Inr authorized \<Rightarrow>
               if \<not> authorized then (Some (CannotWriteToSource (GetSource ds)), d)
               else RunAsTransaction flt (insert_txn flt ds) d))"

section \<open>AddTriples\<close>

text \<open>
  A triple dataset names the source for which the write is authorized and is, as the
  source of \<^verbatim>\<open>CopyFrom\<close>, a sequence of rows of six columns.
\<close>

record TripleDataset =
  GetTripleSource :: string
  GetTriples :: "triple_row list"

text \<open>
  \<^verbatim>\<open>INSERT INTO triples SELECT * FROM triplet ON CONFLICT (source, origin, time, s, p, o)
  DO NOTHING\<close>: a staged row is inserted unless an equal row is in the relation, which
  includes the rows this command has inserted.
\<close>

definition merge_triples :: "triple_row list \<Rightarrow> 'v db \<Rightarrow> 'v db" where
  "merge_triples staged d = fold insert_triple staged d"

definition triples_txn :: "(stage \<Rightarrow> bool) \<Rightarrow> TripleDataset \<Rightarrow> 'v db \<Rightarrow> txerr option \<times> 'v db" where
  "triples_txn flt ds d =
     (let src = GetTripleSource ds in
      if flt CreateTemp then (Some (CannotInsertTriples src (Fault CreateTemp)), d)
      else if triplet d \<noteq> None then (Some (CannotInsertTriples src DuplicateTable), d)
      else
        let d1 = d\<lparr>triplet := Some []\<rparr> in
        if flt CopyFrom then (Some (CannotInsertTriples src (Fault CopyFrom)), d1)
        else
          let d2 = d1\<lparr>triplet := Some (GetTriples ds)\<rparr> in
          if flt Merge then (Some (CannotInsertTriples src (Fault Merge)), d2)
          else
            let d3 = merge_triples (GetTriples ds) d2 in
            if flt DropTemp then (Some (CannotInsertTriples src (Fault DropTemp)), d3)
            else (None, d3\<lparr>triplet := None\<rparr>))"

text \<open>\<open>checkTripleDataset\<close> is not in the source file; it is a parameter.\<close>

definition AddTriples ::
    "(TripleDataset \<Rightarrow> string option) \<Rightarrow> (stage \<Rightarrow> bool) \<Rightarrow> ctx \<Rightarrow> TripleDataset \<Rightarrow> 'v db
      \<Rightarrow> error option \<times> 'v db" where
  "AddTriples checkTripleDataset flt c ds d =
     (case checkTripleDataset ds of
        Some why \<Rightarrow> (Some (CannotHandleInvalidDataset (Invalid why)), d)
      | None \<Rightarrow>
          (case checkAuth flt c ''write'' (GetTripleSource ds) d of
             Inl e \<Rightarrow> (Some (CannotDetermineAuthorized e), d)
           | Inr authorized \<Rightarrow>
               if \<not> authorized then (Some (CannotWriteToSource (GetTripleSource ds)), d)
               else RunAsTransaction flt (triples_txn flt ds) d))"

section \<open>GetGraph\<close>

record ModelRequest =
  Graph :: string
  Timestamp :: timestamp

text \<open>
  \<^verbatim>\<open>WITH latest AS (SELECT source, origin, MAX(time) as time FROM triples
  WHERE time <= $1 and source = $2 GROUP BY source, origin)\<close>: one row for each
  \<open>(source, origin)\<close> among the selected rows, with the greatest time of its group.
\<close>

definition latest :: "timestamp \<Rightarrow> string \<Rightarrow> triple_row list \<Rightarrow> (string \<times> string \<times> timestamp) list" where
  "latest ts g rows =
     (let sel = filter (\<lambda>r. t_time r \<le> ts \<and> t_source r = g) rows
      in map (\<lambda>(src, org).
                (src, org, Max (set (map t_time (filter (\<lambda>r. t_source r = src \<and> t_origin r = org) sel)))))
           (remdups (map (\<lambda>r. (t_source r, t_origin r)) sel)))"

text \<open>
  \<^verbatim>\<open>SELECT s, p, o FROM triples RIGHT JOIN latest USING(source, origin, time)\<close>: every row
  of \<open>latest\<close> with each row of \<open>triples\<close> that agrees with it on the three columns; a row
  of \<open>latest\<close> with no partner is kept, with \<^verbatim>\<open>NULL\<close> in \<open>s\<close>, \<open>p\<close> and \<open>o\<close>.
\<close>

type_synonym nullable_spo = "string option \<times> string option \<times> string option"

definition right_join_latest ::
    "triple_row list \<Rightarrow> (string \<times> string \<times> timestamp) list \<Rightarrow> nullable_spo list" where
  "right_join_latest rows lat =
     concat (map (\<lambda>(src, org, tm).
                    (case filter (\<lambda>r. t_source r = src \<and> t_origin r = org \<and> t_time r = tm) rows of
                       [] \<Rightarrow> [(None, None, None)]
                     | ms \<Rightarrow> map (\<lambda>r. (Some (t_s r), Some (t_p r), Some (t_o r))) ms)) lat)"

text \<open>
  \<^verbatim>\<open>order by s, p, o\<close>: ascending, \<^verbatim>\<open>NULL\<close> last; text is compared character by
  character (the order of \<open>string\<close>).
\<close>

definition nulls_last :: "string option \<Rightarrow> bool \<times> string" where
  "nulls_last x = (case x of None \<Rightarrow> (True, []) | Some v \<Rightarrow> (False, v))"

definition order_key :: "nullable_spo \<Rightarrow> (bool \<times> string) \<times> (bool \<times> string) \<times> (bool \<times> string)" where
  "order_key = (\<lambda>(s, p, ob). (nulls_last s, nulls_last p, nulls_last ob))"

definition graph_query :: "timestamp \<Rightarrow> string \<Rightarrow> 'v db \<Rightarrow> nullable_spo list" where
  "graph_query ts g d = sort_key order_key (right_join_latest (triples d) (latest ts g (triples d)))"

text \<open>
  The first loop of \<^verbatim>\<open>GetGraph\<close>: each row is scanned into three strings (scanning
  \<^verbatim>\<open>NULL\<close> into a string is an error) and printed as one line into the buffer.
\<close>

definition scan_spo :: "nullable_spo \<Rightarrow> cause + string \<times> string \<times> string" where
  "scan_spo row =
     (case row of (Some s, Some p, Some ob) \<Rightarrow> Inr (s, p, ob) | _ \<Rightarrow> Inl ScanNull)"

fun scan_rows :: "nullable_spo list \<Rightarrow> cause + (string \<times> string \<times> string) list" where
  "scan_rows [] = Inr []"
| "scan_rows (row # rows) =
     (case scan_spo row of
        Inl e \<Rightarrow> Inl e
      | Inr t \<Rightarrow> (case scan_rows rows of Inl e \<Rightarrow> Inl e | Inr ts \<Rightarrow> Inr (t # ts)))"

definition statement_line :: "string \<times> string \<times> string \<Rightarrow> string" where
  "statement_line = (\<lambda>(s, p, ob). s @ '' '' @ p @ '' '' @ ob @ '' .'' @ [CHR 0x0A])"

text \<open>
  The decoder and the encoder are those of a library.  \<open>decode\<close> gives, for the text of
  the buffer, the outcomes of the calls of \<^verbatim>\<open>dec.Decode()\<close> up to the end of the
  text; \<open>encode\<close> and \<open>close_encoder\<close> act on the output.
\<close>

record ('t, 'w) rdf_codec =
  decode :: "string \<Rightarrow> (cause + 't) list"
  encode :: "'w \<Rightarrow> 't \<Rightarrow> cause + 'w"
  close_encoder :: "'w \<Rightarrow> cause + 'w"

fun recode :: "('t, 'w) rdf_codec \<Rightarrow> nat \<Rightarrow> (cause + 't) list \<Rightarrow> 'w \<Rightarrow> error option \<times> 'w" where
  "recode k i [] w =
     (case close_encoder k w of Inl e \<Rightarrow> (Some (EncoderClose e), w) | Inr w' \<Rightarrow> (None, w'))"
| "recode k i (Inl e # rest) w = (Some (CouldNotDecodeTriple i e), w)"
| "recode k i (Inr t # rest) w =
     (case encode k w t of
        Inl e \<Rightarrow> (Some (CouldNotEncodeTriple e), w)
      | Inr w' \<Rightarrow> recode k (Suc i) rest w')"

definition GetGraph ::
    "('t, 'w) rdf_codec \<Rightarrow> (stage \<Rightarrow> bool) \<Rightarrow> ModelRequest \<Rightarrow> 'w \<Rightarrow> 'v db \<Rightarrow> error option \<times> 'w" where
  "GetGraph k flt req w d =
     (if flt GraphQuery then (Some (QueryFailed (Fault GraphQuery)), w)
      else case scan_rows (graph_query (Timestamp req) (Graph req) d) of
        Inl e \<Rightarrow> (Some (CouldNotScanRow e), w)
      | Inr rows \<Rightarrow> recode k 0 (decode k (concat (map statement_line rows))) w)"

text \<open>
  The view of a graph as of a timestamp, in the words of the specification: the triples
  of the graph whose time is the greatest time, not after the timestamp, of a triple of
  their origin in that graph; ordered by \<open>(s, p, o)\<close>.
\<close>

definition current_at :: "timestamp \<Rightarrow> string \<Rightarrow> triple_row list \<Rightarrow> triple_row \<Rightarrow> bool" where
  "current_at ts g rows r =
     (t_source r = g \<and> t_time r \<le> ts \<and>
      (\<forall>r' \<in> set rows. t_source r' = g \<and> t_origin r' = t_origin r \<and> t_time r' \<le> ts
          \<longrightarrow> t_time r' \<le> t_time r))"

definition spo :: "triple_row \<Rightarrow> string \<times> string \<times> string" where
  "spo r = (t_s r, t_p r, t_o r)"

definition AsOf :: "string \<Rightarrow> timestamp \<Rightarrow> 'v db \<Rightarrow> (string \<times> string \<times> string) list" where
  "AsOf g ts d = sort (map spo (filter (current_at ts g (triples d)) (triples d)))"

text \<open>Notions used to relate the query to that view.\<close>

definition wrap :: "string \<times> string \<times> string \<Rightarrow> nullable_spo" where
  "wrap = (\<lambda>(s, p, ob). (Some s, Some p, Some ob))"

definition group_of :: "timestamp \<Rightarrow> string \<Rightarrow> string \<Rightarrow> triple_row list \<Rightarrow> triple_row list" where
  "group_of ts g org rows =
     filter (\<lambda>r. t_source r = g \<and> t_origin r = org) (filter (\<lambda>r. t_time r \<le> ts \<and> t_source r = g) rows)"

definition origins :: "timestamp \<Rightarrow> string \<Rightarrow> triple_row list \<Rightarrow> string list" where
  "origins ts g rows = remdups (map t_origin (filter (\<lambda>r. t_time r \<le> ts \<and> t_source r = g) rows))"


section \<open>The reasoner\<close>

text \<open>
  The reasoner is an external service: a function from the graph of the endpoint and the
  text of a query to an error or to the bindings of the result, one list of
  \<open>(variable, binding)\<close> per solution.
\<close>

record binding =
  b_type :: string
  b_value :: string

type_synonym sparql_results = "(string \<times> binding) list list"

type_synonym reasoner = "string \<Rightarrow> string \<Rightarrow> cause + sparql_results"

definition QuerySparql :: "reasoner \<Rightarrow> ctx \<Rightarrow> string \<Rightarrow> string \<Rightarrow> cause + sparql_results" where
  "QuerySparql ask c graph queryString = ask (if graph = [] then ''default'' else graph) queryString"

section \<open>ReadDataChunk\<close>

text \<open>The request of an export; \<open>'a\<close> is the type of the aggregation function.\<close>

record 'a Query =
  Sparql :: string
  Uris :: "string list"
  Sources :: "string list"
  Ids :: "int list"
  Start :: timestamp
  End :: timestamp
  AggregationFunc :: "'a option"
  AggregationWindow :: "string option"

subsection \<open>writeMetadataArrow\<close>

text \<open>The values of the bindings of type \<open>uri\<close>, over all solutions and variables.\<close>

definition uri_bindings :: "sparql_results \<Rightarrow> string list" where
  "uri_bindings res =
     concat (map (\<lambda>row. map (\<lambda>(var, b). b_value b) (filter (\<lambda>(var, b). b_type b = ''uri'') row)) res)"

text \<open>
  \<^verbatim>\<open>SELECT id from streams WHERE (name = ANY($1) OR brick_uri = ANY($1)) AND source = ANY($2)\<close>
  when there are sources, and the same without the last conjunct when there are none.
  A \<^verbatim>\<open>NULL\<close> \<open>brick_uri\<close> equals nothing.
\<close>

definition name_or_uri_in :: "string list \<Rightarrow> stream_row \<Rightarrow> bool" where
  "name_or_uri_in uris r =
     (st_name r \<in> set uris \<or> (case st_brick_uri r of None \<Rightarrow> False | Some u \<Rightarrow> u \<in> set uris))"

definition select_ids :: "string list \<Rightarrow> string list \<Rightarrow> 'v db \<Rightarrow> int list" where
  "select_ids uris sources d =
     (if sources \<noteq> []
      then map st_id (filter (\<lambda>r. name_or_uri_in uris r \<and> st_source r \<in> set sources) (streams d))
      else map st_id (filter (name_or_uri_in uris) (streams d)))"

text \<open>
  The first part of \<^verbatim>\<open>writeMetadataArrow\<close>: what \<^verbatim>\<open>q.Ids\<close> holds when the
  metadata is read.  Both branches append to the ids the request came with.
\<close>

definition resolve_ids ::
    "reasoner \<Rightarrow> (stage \<Rightarrow> bool) \<Rightarrow> ctx \<Rightarrow> 'a Query \<Rightarrow> 'v db \<Rightarrow> mderr + int list" where
  "resolve_ids ask flt c q d =
     (if Sparql q \<noteq> [] then
        (case QuerySparql ask c ''default'' (Sparql q) of
           Inl e \<Rightarrow> Inl (Unwrapped e)
         | Inr res \<Rightarrow>
             if flt IdQuery then Inl (Unwrapped (Fault IdQuery))
             else Inr (Ids q @ select_ids (uri_bindings res) (Sources q) d))
      else if Uris q \<noteq> [] then
        (if flt IdQuery then Inl (Unwrapped (Fault IdQuery))
         else Inr (Ids q @ select_ids (Uris q) (Sources q) d))
      else Inr (Ids q))"

text \<open>
  \<^verbatim>\<open>SELECT DISTINCT id, brick_class, brick_uri, units, name FROM streams WHERE id = ANY($1)\<close>,
  each row scanned into an integer and four strings: a \<^verbatim>\<open>NULL\<close> class or URI is a
  scan error.
\<close>

type_synonym md_row = "string \<times> string \<times> string \<times> string \<times> int"

definition metadata_query ::
    "int list \<Rightarrow> 'v db \<Rightarrow> (int \<times> string option \<times> string option \<times> string \<times> string) list" where
  "metadata_query ids d =
     remdups (map (\<lambda>r. (st_id r, st_brick_class r, st_brick_uri r, st_units r, st_name r))
                (filter (\<lambda>r. st_id r \<in> set ids) (streams d)))"

definition scan_metadata ::
    "int \<times> string option \<times> string option \<times> string \<times> string \<Rightarrow> cause + md_row" where
  "scan_metadata = (\<lambda>(i, bc, bu, un, nm).
     (case bc of
        None \<Rightarrow> Inl ScanNull
      | Some cl \<Rightarrow> (case bu of None \<Rightarrow> Inl ScanNull | Some u \<Rightarrow> Inr (cl, u, un, nm, i))))"

fun scan_all :: "('a \<Rightarrow> cause + 'b) \<Rightarrow> 'a list \<Rightarrow> cause + 'b list" where
  "scan_all f [] = Inr []"
| "scan_all f (x # xs) =
     (case f x of
        Inl e \<Rightarrow> Inl e
      | Inr y \<Rightarrow> (case scan_all f xs of Inl e \<Rightarrow> Inl e | Inr ys \<Rightarrow> Inr (y # ys)))"

text \<open>
  What is written to the output, under its compression: record batches, and the marker
  with which an Arrow writer ends its stream when it is closed.  The output is a
  parameter: \<open>wr\<close> writes one item or fails.
\<close>

datatype 'v frame =
    MetadataFrame "md_row list"
  | DataFrame "(int \<times> 'v \<times> string) list"
  | EndOfStream

definition writeMetadataArrow ::
    "reasoner \<Rightarrow> ('w \<Rightarrow> 'v frame \<Rightarrow> cause + 'w) \<Rightarrow> (stage \<Rightarrow> bool) \<Rightarrow> ctx \<Rightarrow> 'w \<Rightarrow> 'a Query \<Rightarrow> 'v db
      \<Rightarrow> mderr option \<times> 'w \<times> 'a Query" where
  "writeMetadataArrow ask wr flt c w q d =
     (case resolve_ids ask flt c q d of
        Inl e \<Rightarrow> (Some e, w, q)
      | Inr ids \<Rightarrow>
          let q' = q\<lparr>Ids := ids\<rparr> in
          if flt MetadataQuery then (Some (Unwrapped (Fault MetadataQuery)), w, q')
          else
            (case scan_all scan_metadata (metadata_query ids d) of
               Inl e \<Rightarrow> (Some (CouldNotQuery e), w, q')
             | Inr rows \<Rightarrow>
                 (case wr w (MetadataFrame rows) of
                    Inl e \<Rightarrow> (Some (CouldNotWriteRecord e), w, q')
                  | Inr w1 \<Rightarrow>
                      (case wr w1 EndOfStream of
                         Inl e \<Rightarrow> (Some (Unwrapped e), w1, q')
                       | Inr w2 \<Rightarrow> (None, w2, q')))))"

subsection \<open>The data query\<close>

text \<open>
  Modelled from the spec: the view \<open>unified\<close> is not in the source file.  Its rows are the
  readings, each with the \<open>brick_uri\<close> and the \<open>name\<close> of its stream.
\<close>

record 'v unified_row =
  u_time :: timestamp
  u_stream_id :: int
  u_value :: 'v
  u_brick_uri :: "string option"
  u_name :: string

definition unified :: "'v db \<Rightarrow> 'v unified_row list" where
  "unified d =
     concat (map (\<lambda>r. map (\<lambda>s. \<lparr>u_time = d_time r, u_stream_id = d_stream_id r, u_value = d_value r,
                                u_brick_uri = st_brick_uri s, u_name = st_name s\<rparr>)
                        (filter (\<lambda>s. st_id s = d_stream_id r) (streams d)))
               (data d))"

text \<open>
  The bounds are passed as \<^verbatim>\<open>Format(time.RFC3339)\<close>, which drops the fraction of the
  second; a tick of \<open>timestamp\<close> is a microsecond.
\<close>

definition rfc3339 :: "timestamp \<Rightarrow> timestamp" where
  "rfc3339 t = t - t mod 1000000"

definition in_range :: "'a Query \<Rightarrow> 'v unified_row \<Rightarrow> bool" where
  "in_range q r =
     (rfc3339 (Start q) \<le> u_time r \<and> u_time r \<le> rfc3339 (End q) \<and> u_stream_id r \<in> set (Ids q))"

definition label :: "'v unified_row \<Rightarrow> string" where
  "label r = (case u_brick_uri r of Some u \<Rightarrow> u | None \<Rightarrow> u_name r)"

text \<open>
  The result of a query as the loop reads it: for each row, what \<^verbatim>\<open>rows.Scan\<close>
  returns.  The query with \<^verbatim>\<open>time_bucket\<close> and an aggregate is evaluated by the
  store; \<open>aggregate\<close>, a parameter, gives its result for the rows the
  \<^verbatim>\<open>WHERE\<close> clause keeps.
\<close>

type_synonym 'v cursor = "(cause + timestamp \<times> 'v \<times> string) list"

definition run_data_query ::
    "('a \<Rightarrow> string \<Rightarrow> 'v unified_row list \<Rightarrow> cause + 'v cursor) \<Rightarrow> 'a Query \<Rightarrow> 'v db
      \<Rightarrow> cause + 'v cursor" where
  "run_data_query aggregate q d =
     (case AggregationFunc q of
        Some f \<Rightarrow>
          (case AggregationWindow q of
             Some window \<Rightarrow> aggregate f window (filter (in_range q) (unified d))
           | None \<Rightarrow> Inr (map (\<lambda>r. Inr (u_time r, u_value r, label r)) (filter (in_range q) (unified d))))
      | None \<Rightarrow> Inr (map (\<lambda>r. Inr (u_time r, u_value r, label r)) (filter (in_range q) (unified d))))"

subsection \<open>The loop over the rows\<close>

text \<open>\<^verbatim>\<open>t.UnixNano()\<close>: nanoseconds in 64 bits, signed.\<close>

definition UnixNano :: "timestamp \<Rightarrow> int" where
  "UnixNano t = (t * 1000 + 2 ^ 63) mod 2 ^ 64 - 2 ^ 63"

definition arrow_row :: "timestamp \<times> 'v \<times> string \<Rightarrow> int \<times> 'v \<times> string" where
  "arrow_row = (\<lambda>(t, v, s). (UnixNano t, v, s))"

text \<open>
  The builder holds the rows appended since the last record; \<^verbatim>\<open>NewRecord\<close> empties it.
  A record is written when, after an append, the builder holds more than 2000000 rows.
\<close>

definition flush_threshold :: nat where
  "flush_threshold = 2000000"

fun chunk_loop ::
    "('w \<Rightarrow> 'v frame \<Rightarrow> cause + 'w) \<Rightarrow> 'v cursor \<Rightarrow> (int \<times> 'v \<times> string) list \<Rightarrow> 'w
      \<Rightarrow> (error \<times> 'w) + ((int \<times> 'v \<times> string) list \<times> 'w)" where
  "chunk_loop wr [] bldr w = Inr (bldr, w)"
| "chunk_loop wr (Inl e # rest) bldr w = Inl (CouldNotQueryData e, w)"
| "chunk_loop wr (Inr row # rest) bldr w =
     (let bldr' = bldr @ [arrow_row row] in
      if length bldr' > flush_threshold
      then (case wr w (DataFrame bldr') of
              Inl e \<Rightarrow> Inl (CouldNotWriteData e, w)
            | Inr w' \<Rightarrow> chunk_loop wr rest [] w')
      else chunk_loop wr rest bldr' w)"

definition ReadDataChunk ::
    "reasoner \<Rightarrow> ('a \<Rightarrow> string \<Rightarrow> 'v unified_row list \<Rightarrow> cause + 'v cursor)
      \<Rightarrow> ('w \<Rightarrow> 'v frame \<Rightarrow> cause + 'w) \<Rightarrow> (stage \<Rightarrow> bool) \<Rightarrow> ctx \<Rightarrow> 'w \<Rightarrow> 'a Query \<Rightarrow> 'v db
      \<Rightarrow> error option \<times> 'w \<times> 'a Query" where
  "ReadDataChunk ask aggregate wr flt c w q d =
     (case writeMetadataArrow ask wr flt c w q d of
        (Some e, w1, q1) \<Rightarrow> (Some (ErrorProcessingMetadata e), w1, q1)
      | (None, w1, q1) \<Rightarrow>
          (case (if flt DataQuery then Inl (Fault DataQuery) else run_data_query aggregate q1 d) of
             Inl e \<Rightarrow> (Some (CouldNotQueryData e), w1, q1)
           | Inr rows \<Rightarrow>
               (case chunk_loop wr rows [] w1 of
                  Inl (e, w2) \<Rightarrow> (Some e, w2, q1)
                | Inr (bldr, w2) \<Rightarrow>
                    (case wr w2 (DataFrame bldr) of
                       Inl e \<Rightarrow> (Some (CouldNotWriteData e), w2, q1)
                     | Inr w3 \<Rightarrow>
                         (case wr w3 EndOfStream of
                            Inl e \<Rightarrow> (Some (WriterClose e), w3, q1)
                          | Inr w4 \<Rightarrow> (None, w4, q1))))))"

text \<open>
  An output that keeps what is written, and the frames a list of rows is cut into: a
  frame of \<open>flush_threshold + 1\<close> rows while more than \<open>flush_threshold\<close> rows are left,
  then the rest.
\<close>

definition to_buffer :: "'v frame list \<Rightarrow> 'v frame \<Rightarrow> cause + 'v frame list" where
  "to_buffer w f = Inr (w @ [f])"

function split_frames :: "'r list \<Rightarrow> 'r list list" where
  "split_frames rows =
     (if length rows > flush_threshold
      then take (Suc flush_threshold) rows # split_frames (drop (Suc flush_threshold) rows)
      else [rows])"
  by pat_completeness auto
termination
  by (relation "measure length") auto

declare split_frames.simps [simp del]

definition data_rows :: "'v frame list \<Rightarrow> (int \<times> 'v \<times> string) list" where
  "data_rows w = concat (map (\<lambda>f. case f of DataFrame rows \<Rightarrow> rows | _ \<Rightarrow> []) w)"

section \<open>Qualify\<close>

text \<open>\<^verbatim>\<open>SELECT distinct source from triples\<close>\<close>

definition graphs :: "(stage \<Rightarrow> bool) \<Rightarrow> 'v db \<Rightarrow> cause + string list" where
  "graphs flt d =
     (if flt GraphsQuery then Inl (Fault GraphsQuery) else Inr (remdups (map t_source (triples d))))"

record queryTask =
  graph :: string
  queryIdx :: nat

record queryResult = queryTask +
  numSolutions :: nat

subsection \<open>The loop over the results\<close>

text \<open>
  \<^verbatim>\<open>querySiteCounts\<close> is a map from graphs to slices.  A result for a graph that
  is not in the map first puts a slice of zeros, as long as the list of queries, there;
  then the count is stored at the index of the query.  An index outside the slice is a
  run-time panic: \<open>None\<close>.
\<close>

type_synonym counts = "string \<rightharpoonup> nat list"

definition record_result :: "nat \<Rightarrow> 'x queryResult_scheme \<Rightarrow> counts \<Rightarrow> counts option" where
  "record_result n res m =
     (let slice = (case m (graph res) of None \<Rightarrow> replicate n 0 | Some cs \<Rightarrow> cs)
      in if queryIdx res < length slice
         then Some (m(graph res \<mapsto> slice[queryIdx res := numSolutions res]))
         else None)"

fun drain :: "nat \<Rightarrow> queryResult list \<Rightarrow> counts \<Rightarrow> counts option" where
  "drain n [] m = Some m"
| "drain n (res # rest) m =
     (case record_result n res m of None \<Rightarrow> None | Some m' \<Rightarrow> drain n rest m')"

subsection \<open>The workers\<close>

text \<open>
  A worker is about to receive from \<^verbatim>\<open>tasks\<close>, or is evaluating the query of a task,
  or has left its loop.  The channels are buffered for all jobs, so no send blocks; the
  channel of tasks is filled and closed by the caller, which does not wait for anything
  while doing so.  The state of the pool is what the channels hold and what the workers
  do; \<open>panicked\<close> records an index outside \<^verbatim>\<open>qualifyQueryList\<close>.
\<close>

datatype worker = Receiving | Querying queryTask | Exited

record pool =
  tasks :: "queryTask list"
  workers :: "worker list"
  results :: "queryResult list"
  errors :: "cause list"
  panicked :: bool

text \<open>
  One step of worker \<open>i\<close>: it receives the next task, or leaves when there is none; or it
  finishes its query, sends the result and goes on, or sends the error and breaks.
  \<^verbatim>\<open>len(res.Solutions())\<close> is the number of solutions of the result.
\<close>

definition worker_step :: "reasoner \<Rightarrow> ctx \<Rightarrow> string list \<Rightarrow> nat \<Rightarrow> pool \<Rightarrow> pool" where
  "worker_step ask c qualifyQueryList i p =
     (case workers p ! i of
        Receiving \<Rightarrow>
          (case tasks p of
             [] \<Rightarrow> p\<lparr>workers := (workers p)[i := Exited]\<rparr>
           | task # rest \<Rightarrow> p\<lparr>tasks := rest, workers := (workers p)[i := Querying task]\<rparr>)
      | Querying task \<Rightarrow>
          if queryIdx task < length qualifyQueryList
          then (case QuerySparql ask c (graph task) (qualifyQueryList ! queryIdx task) of
                  Inl e \<Rightarrow> p\<lparr>errors := errors p @ [e], workers := (workers p)[i := Exited]\<rparr>
                | Inr res \<Rightarrow>
                    p\<lparr>results := results p @
                         [\<lparr>graph = graph task, queryIdx = queryIdx task,
                           numSolutions = length res\<rparr>],
                      workers := (workers p)[i := Receiving]\<rparr>)
          else p\<lparr>panicked := True, workers := (workers p)[i := Exited]\<rparr>
      | Exited \<Rightarrow> p)"

text \<open>
  The workers run concurrently.  A schedule says, step by step, which of the workers
  that have not left moves next (the \<open>k\<close>-th of them, counting cyclically; the first one
  when the schedule is used up).  The pool runs until every worker has left.
\<close>

definition live :: "pool \<Rightarrow> nat list" where
  "live p = filter (\<lambda>i. workers p ! i \<noteq> Exited) [0..<length (workers p)]"

definition next_worker :: "nat list \<Rightarrow> pool \<Rightarrow> nat" where
  "next_worker sched p = live p ! ((case sched of [] \<Rightarrow> 0 | k # _ \<Rightarrow> k) mod length (live p))"

fun weight :: "worker \<Rightarrow> nat" where
  "weight Receiving = 1"
| "weight (Querying task) = 2"
| "weight Exited = 0"

definition remaining :: "pool \<Rightarrow> nat" where
  "remaining p = 3 * length (tasks p) + sum_list (map weight (workers p))"

lemma weight_update:
  "i < length ws \<Longrightarrow>
   sum_list (map weight (ws[i := w])) + weight (ws ! i) = sum_list (map weight ws) + weight w"
proof (induction ws arbitrary: i)
  case Nil
  then show ?case by simp
next
  case (Cons a ws)
  then show ?case by (cases i) auto
qed

lemma live_iff: "i \<in> set (live p) \<longleftrightarrow> i < length (workers p) \<and> workers p ! i \<noteq> Exited"
  by (auto simp: live_def)

lemma next_worker_live: "live p \<noteq> [] \<Longrightarrow> next_worker sched p \<in> set (live p)"
  by (simp add: next_worker_def)

lemma worker_step_remaining:
  assumes "i \<in> set (live p)"
  shows "remaining (worker_step ask c qs i p) < remaining p"
proof -
  from assms have i: "i < length (workers p)" and ne: "workers p ! i \<noteq> Exited"
    by (simp_all add: live_iff)
  show ?thesis
  proof (cases "workers p ! i")
    case Receiving
    show ?thesis
    proof (cases "tasks p")
      case Nil
      with Receiving weight_update [OF i, of Exited] show ?thesis
        by (simp add: worker_step_def remaining_def)
    next
      case (Cons task rest)
      with Receiving weight_update [OF i, of "Querying task"] show ?thesis
        by (simp add: worker_step_def remaining_def)
    qed
  next
    case (Querying task)
    with weight_update [OF i, of Exited] weight_update [OF i, of Receiving] show ?thesis
      by (auto simp: worker_step_def remaining_def split: sum.splits)
  next
    case Exited
    with ne show ?thesis by simp
  qed
qed

function run_workers :: "reasoner \<Rightarrow> ctx \<Rightarrow> string list \<Rightarrow> nat list \<Rightarrow> pool \<Rightarrow> pool" where
  "run_workers ask c qualifyQueryList sched p =
     (if live p = [] then p
      else run_workers ask c qualifyQueryList (tl sched)
             (worker_step ask c qualifyQueryList (next_worker sched p) p))"
  by pat_completeness auto
termination
  by (relation "measure (\<lambda>(ask, c, qs, sched, p). remaining p)")
     (simp_all add: worker_step_remaining next_worker_live)

declare run_workers.simps [simp del]

subsection \<open>The call\<close>

text \<open>
  The jobs are queued query by query, for each query graph by graph; four workers are
  started.  The caller reads \<^verbatim>\<open>results\<close> until it is closed, which happens when all
  workers have left: it has then stored every result that was sent.  Then it selects
  between receiving from \<^verbatim>\<open>errors\<close> and receiving from \<^verbatim>\<open>done\<close>.  The goroutine
  that closed \<^verbatim>\<open>results\<close> sends on \<^verbatim>\<open>done\<close> next; once it waits there, both cases
  of the \<^verbatim>\<open>select\<close> can proceed when an error was sent, and Go chooses one of them at
  random.  \<open>done_first\<close> says that the choice was \<^verbatim>\<open>done\<close>.  With no error in the
  channel the caller waits for \<^verbatim>\<open>done\<close>.
\<close>

definition jobs :: "string list \<Rightarrow> string list \<Rightarrow> queryTask list" where
  "jobs qualifyQueryList gs =
     concat (map (\<lambda>i. map (\<lambda>g. \<lparr>graph = g, queryIdx = i\<rparr>) gs) [0..<length qualifyQueryList])"

definition start :: "queryTask list \<Rightarrow> pool" where
  "start ts = \<lparr>tasks = ts, workers = replicate 4 Receiving, results = [], errors = [], panicked = False\<rparr>"

definition Qualify ::
    "reasoner \<Rightarrow> (stage \<Rightarrow> bool) \<Rightarrow> nat list \<Rightarrow> bool \<Rightarrow> ctx \<Rightarrow> string list \<Rightarrow> 'v db
      \<Rightarrow> (counts \<times> cause option) option" where
  "Qualify ask flt sched done_first c qualifyQueryList d =
     (case graphs flt d of
        Inl e \<Rightarrow> Some (Map.empty, Some e)
      | Inr gs \<Rightarrow>
          let p = run_workers ask c qualifyQueryList sched (start (jobs qualifyQueryList gs)) in
          if panicked p then None
          else
            (case drain (length qualifyQueryList) (results p) Map.empty of
               None \<Rightarrow> None
             | Some querySiteCounts \<Rightarrow>
                 Some (querySiteCounts,
                       case errors p of
                         [] \<Rightarrow> None
                       | e # _ \<Rightarrow> if done_first then None else Some e)))"

text \<open>
  The results the workers have sent when the call reads them, and what they say about a
  job: the count of the last result sent for it, and 0 when none was sent.
\<close>

definition completed :: "reasoner \<Rightarrow> ctx \<Rightarrow> string list \<Rightarrow> nat list \<Rightarrow> 'v db \<Rightarrow> queryResult list" where
  "completed ask c qualifyQueryList sched d =
     results (run_workers ask c qualifyQueryList sched
                (start (jobs qualifyQueryList (remdups (map t_source (triples d))))))"

definition results_for :: "queryResult list \<Rightarrow> string \<Rightarrow> nat \<Rightarrow> queryResult list" where
  "results_for rs g i = filter (\<lambda>r. graph r = g \<and> queryIdx r = i) rs"

definition reported :: "queryResult list \<Rightarrow> string \<Rightarrow> nat \<Rightarrow> nat" where
  "reported rs g i = (case results_for rs g i of [] \<Rightarrow> 0 | xs \<Rightarrow> numSolutions (last xs))"

definition well_formed :: "nat \<Rightarrow> counts \<Rightarrow> bool" where
  "well_formed n m = (\<forall>g cs. m g = Some cs \<longrightarrow> length cs = n)"

text \<open>Every index that is sent or queued is an index of the list of queries: no panic.\<close>

definition in_range_pool :: "nat \<Rightarrow> pool \<Rightarrow> bool" where
  "in_range_pool n p =
     (\<not> panicked p \<and> (\<forall>t \<in> set (tasks p). queryIdx t < n)
      \<and> (\<forall>t. Querying t \<in> set (workers p) \<longrightarrow> queryIdx t < n)
      \<and> (\<forall>r \<in> set (results p). queryIdx r < n))"

text \<open>
  Invariants of the pool.  As long as tasks are queued, every worker that has left has
  sent an error.  Every result that was sent carries the number of solutions the reasoner
  finds for its job.  Every job the reasoner can answer is queued, or being evaluated, or
  has a result.
\<close>

definition queue_served :: "pool \<Rightarrow> bool" where
  "queue_served p = (tasks p = [] \<or> count (mset (workers p)) Exited \<le> length (errors p))"

definition results_sound :: "reasoner \<Rightarrow> ctx \<Rightarrow> string list \<Rightarrow> pool \<Rightarrow> bool" where
  "results_sound ask c qs p =
     (\<forall>r \<in> set (results p). \<exists>res. QuerySparql ask c (graph r) (qs ! queryIdx r) = Inr res
                                  \<and> numSolutions r = length res)"

definition jobs_kept :: "reasoner \<Rightarrow> ctx \<Rightarrow> string list \<Rightarrow> queryTask list \<Rightarrow> pool \<Rightarrow> bool" where
  "jobs_kept ask c qs js p =
     (\<forall>t \<in> set js. (\<exists>res. QuerySparql ask c (graph t) (qs ! queryIdx t) = Inr res) \<longrightarrow>
        t \<in> set (tasks p) \<or> Querying t \<in> set (workers p)
        \<or> (\<exists>r \<in> set (results p). graph r = graph t \<and> queryIdx r = queryIdx t))"

section \<open>Example data\<close>

text \<open>
  A store that holds one authorization, and the requests used as concrete inputs below
  (the stream of the specification's end-to-end example, with a classification).
\<close>

definition no_faults :: "stage \<Rightarrow> bool" where
  "no_faults = (\<lambda>_. False)"

definition accept :: "'a \<Rightarrow> string option" where
  "accept = (\<lambda>_. None)"

definition alice :: ctx where
  "alice = \<lparr>user = Some ''key-1''\<rparr>"

definition mallory :: ctx where
  "mallory = \<lparr>user = Some ''key-2''\<rparr>"

definition store0 :: "int db" where
  "store0 =
     \<lparr>streams = [], streams_seq = 1, data = [], triples = [],
      authorizations = [\<lparr>a_apikey = ''key-1'', a_permission = ''write'', a_source = ''bldg1''\<rparr>],
      data_temp = None, triplet = None\<rparr>"

definition temp1 :: Stream where
  "temp1 = \<lparr>Name = ''temp1'', SourceName = ''bldg1'', Units = ''F'',
            BrickURI = ''urn:bldg1#temp1'', BrickClass = []\<rparr>"

text \<open>The rows of the triple log that classify a stream: its \<open>rdf:type\<close> assertions.\<close>

definition classification_triples :: "Stream \<Rightarrow> 'v db \<Rightarrow> triple_row list" where
  "classification_triples stream d =
     filter (\<lambda>r. t_source r = SourceName stream \<and> t_s r = bracket (BrickURI stream) \<and> t_p r = rdf_type)
       (triples d)"

text \<open>
  A triple log: in graph \<open>g\<close> the origin \<open>a\<close> has batches at the times 10 and 20 and the
  origin \<open>b\<close> one at the time 15; graph \<open>h\<close> has one triple.
\<close>

definition tr :: "string \<Rightarrow> string \<Rightarrow> timestamp \<Rightarrow> string \<Rightarrow> triple_row" where
  "tr g org t s = \<lparr>t_source = g, t_origin = org, t_time = t, t_s = s, t_p = ''p'', t_o = ''o''\<rparr>"

definition log0 :: "triple_row list" where
  "log0 = [tr ''g'' ''a'' 10 ''x'', tr ''g'' ''a'' 10 ''w'', tr ''g'' ''a'' 20 ''y'',
           tr ''g'' ''b'' 15 ''z'', tr ''h'' ''a'' 12 ''q'']"

definition store1 :: "int db" where
  "store1 = store0\<lparr>triples := log0\<rparr>"




text \<open>
  Modelled from the spec: \<open>checkStream\<close> is not in the source file; by section 4.3 of the
  specification it requires a name and a source that are not empty.
\<close>

definition checkStream_spec :: "Stream \<Rightarrow> string option" where
  "checkStream_spec stream =
     (if Name stream = [] then Some ''name is empty''
      else if SourceName stream = [] then Some ''source is empty''
      else None)"

text \<open>
  The store after the stream \<open>temp1\<close> has been registered, and datasets for that stream:
  one reading at the time 100, another value for the same time, and both in one batch.
\<close>

definition store2 :: "int db" where
  "store2 = store0\<lparr>streams := [\<lparr>st_id = 1, st_name = ''temp1'', st_source = ''bldg1'', st_units = ''F'',
       st_brick_uri = Some ''urn:bldg1#temp1'', st_brick_class = None\<rparr>], streams_seq := 2\<rparr>"

definition readings1 :: "int Dataset" where
  "readings1 = \<lparr>GetSource = ''bldg1'', GetName = ''temp1'', GetReadings = [(100, 701)]\<rparr>"

definition readings2 :: "int Dataset" where
  "readings2 = \<lparr>GetSource = ''bldg1'', GetName = ''temp1'', GetReadings = [(100, 710)]\<rparr>"

definition readings_twice :: "int Dataset" where
  "readings_twice = \<lparr>GetSource = ''bldg1'', GetName = ''temp1'', GetReadings = [(100, 701), (100, 710)]\<rparr>"

definition triples1 :: TripleDataset where
  "triples1 = \<lparr>GetTripleSource = ''bldg1'', GetTriples = [tr ''bldg1'' ''upload'' 5 ''x'']\<rparr>"

text \<open>
  A store with one classified stream and three readings, one second apart; a reasoner
  that answers every query with one solution binding \<open>?s\<close> to the URI of that stream; an
  engine that has no aggregates; and export requests by ids, by a query text, and by
  both.
\<close>

definition store3 :: "int db" where
  "store3 =
     store0\<lparr>streams := [\<lparr>st_id = 1, st_name = ''temp1'', st_source = ''bldg1'', st_units = ''F'',
                          st_brick_uri = Some ''urn:bldg1#temp1'',
                          st_brick_class = Some ''https://brickschema.org/schema/Brick#Temperature_Sensor''\<rparr>],
            streams_seq := 2,
            data := [\<lparr>d_time = 1000000, d_stream_id = 1, d_value = 701\<rparr>,
                     \<lparr>d_time = 2000000, d_stream_id = 1, d_value = 710\<rparr>,
                     \<lparr>d_time = 3000000, d_stream_id = 1, d_value = 720\<rparr>]\<rparr>"

definition ask1 :: reasoner where
  "ask1 = (\<lambda>graph text. Inr [[(''s'', \<lparr>b_type = ''uri'', b_value = ''urn:bldg1#temp1''\<rparr>)]])"

definition no_aggregates :: "unit \<Rightarrow> string \<Rightarrow> int unified_row list \<Rightarrow> cause + int cursor" where
  "no_aggregates = (\<lambda>f window rows. Inl (Upstream ''no such function''))"

definition by_ids :: "int list \<Rightarrow> unit Query" where
  "by_ids ids = \<lparr>Sparql = [], Uris = [], Sources = [], Ids = ids, Start = 1000000, End = 2500000,
                 AggregationFunc = None, AggregationWindow = None\<rparr>"

definition by_sparql :: "int list \<Rightarrow> unit Query" where
  "by_sparql ids = (by_ids ids)\<lparr>Sparql := ''SELECT ?s WHERE { ?s a brick:Point }''\<rparr>"

text \<open>
  A reasoner that cannot answer the query \<open>q2\<close> for graph \<open>g\<close> and finds two solutions
  for every other job.
\<close>

definition ask3 :: reasoner where
  "ask3 = (\<lambda>graph text. if graph = ''g'' \<and> text = ''q2'' then Inl (Upstream ''timeout'')
                        else Inr [[], []])"

section \<open>Properties of RegisterStream\<close>

lemma same_stream_do_update [simp]:
  "same_stream src nm (do_update nm' src' un bu bc r) = same_stream src nm r"
  by (simp add: do_update_def same_stream_def)

lemma do_update_twice [simp]:
  "do_update nm src un bu bc (do_update nm src un bu bc r) = do_update nm src un bu bc r"
  by (simp add: do_update_def same_stream_def)

lemma do_update_other: "\<not> same_stream src nm r \<Longrightarrow> do_update nm src un bu bc r = r"
  by (simp add: do_update_def)

lemma do_update_id [simp]: "st_id (do_update nm src un bu bc r) = st_id r"
  by (simp add: do_update_def)

text \<open>The conflicting insert of a re-registration leaves the relation \<open>streams\<close> as it is.\<close>

lemma upsert_stream_twice:
  "streams (upsert_stream nm src un bu bc (upsert_stream nm src un bu bc d)) =
   streams (upsert_stream nm src un bu bc d)"
proof (cases "\<exists>r \<in> set (streams d). same_stream src nm r")
  case True
  then show ?thesis
    by (simp add: upsert_stream_def Let_def)
next
  case False
  then have "map (do_update nm src un bu bc) (streams d) = streams d"
    by (simp add: map_idI do_update_other)
  with False show ?thesis
    by (simp add: upsert_stream_def Let_def same_stream_def do_update_def)
qed

lemma insert_triple_frame [simp]:
  "streams (insert_triple r d) = streams d"
  "streams_seq (insert_triple r d) = streams_seq d"
  "authorizations (insert_triple r d) = authorizations d"
  "data (insert_triple r d) = data d"
  "data_temp (insert_triple r d) = data_temp d"
  "triplet (insert_triple r d) = triplet d"
  by (simp_all add: insert_triple_def)

lemma upsert_stream_frame [simp]:
  "triples (upsert_stream nm src un bu bc d) = triples d"
  "authorizations (upsert_stream nm src un bu bc d) = authorizations d"
  "data (upsert_stream nm src un bu bc d) = data d"
  "data_temp (upsert_stream nm src un bu bc d) = data_temp d"
  "triplet (upsert_stream nm src un bu bc d) = triplet d"
  by (simp_all add: upsert_stream_def Let_def)

lemma triples_insert_triple:
  "triples (insert_triple r d) = (if r \<in> set (triples d) then triples d else triples d @ [r])"
  by (simp add: insert_triple_def)

lemma register_txn_no_faults:
  assumes "\<forall>s. \<not> flt s"
  shows "\<exists>d'. register_txn flt now stream d = (None, d')
     \<and> authorizations d' = authorizations d
     \<and> streams d' = streams (upsert_stream (Name stream) (SourceName stream) (Units stream)
          (if BrickURI stream \<noteq> [] then Some (BrickURI stream) else None)
          (if BrickClass stream \<noteq> [] then Some (BrickClass stream) else None) d)
     \<and> triples d' =
          (if BrickURI stream = [] \<or> classification_triple stream now \<in> set (triples d)
           then triples d else triples d @ [classification_triple stream now])"
  using assms by (simp add: register_txn_def Let_def triples_insert_triple)

lemma RegisterStream_authorized:
  assumes "checkStream stream = None" "user c = Some k"
    and "0 < count_authorizations k ''write'' (SourceName stream) d"
    and "\<forall>s. \<not> flt s"
  shows "RegisterStream checkStream flt c now stream d = (None, snd (register_txn flt now stream d))"
proof -
  from register_txn_no_faults [OF assms(4)]
  obtain d' where "register_txn flt now stream d = (None, d')"
    by blast
  with assms show ?thesis
    by (simp add: RegisterStream_def checkAuth_def RunAsTransaction_def)
qed


lemma upsert_stream_conflict:
  "\<exists>r \<in> set (streams (upsert_stream nm src un bu bc d)). same_stream src nm r"
proof (cases "\<exists>r \<in> set (streams d). same_stream src nm r")
  case True
  then obtain r where r: "r \<in> set (streams d)" "same_stream src nm r"
    by blast
  then have "do_update nm src un bu bc r \<in> set (map (do_update nm src un bu bc) (streams d))"
    by simp
  moreover from r(2) have "same_stream src nm (do_update nm src un bu bc r)"
    by (simp add: do_update_def same_stream_def)
  ultimately have "\<exists>x \<in> set (map (do_update nm src un bu bc) (streams d)). same_stream src nm x"
    by blast
  with True show ?thesis
    by (simp add: upsert_stream_def Let_def)
next
  case False
  then show ?thesis
    by (auto simp add: upsert_stream_def Let_def same_stream_def)
qed

lemma upsert_stream_again:
  assumes "streams d1 = streams (upsert_stream nm src un bu bc d)"
  shows "streams (upsert_stream nm src un bu bc d1) = streams d1"
proof -
  let ?d0 = "upsert_stream nm src un bu bc d"
  have c: "\<exists>r \<in> set (streams ?d0). same_stream src nm r"
    by (rule upsert_stream_conflict)
  then have "streams (upsert_stream nm src un bu bc ?d0) = map (do_update nm src un bu bc) (streams ?d0)"
    by (simp add: upsert_stream_def [of nm src un bu bc ?d0] Let_def)
  moreover from c assms have "streams (upsert_stream nm src un bu bc d1) = map (do_update nm src un bu bc) (streams ?d0)"
    by (simp add: upsert_stream_def [of nm src un bu bc d1] Let_def)
  ultimately show ?thesis
    using assms by (simp add: upsert_stream_twice)
qed

text \<open>
  What a second registration with the same fields does, on any store: the relation
  \<open>streams\<close>, so the id and the row of the stream, stays as the first call left it; the
  triple log stays as it was when the clock reading is the same, and otherwise, for a
  stream with a classification URI, gets the classification triple of the second call
  (unless that very row is there already).
\<close>

lemma RegisterStream_again:
  assumes "checkStream stream = None" "user c = Some k"
    and "0 < count_authorizations k ''write'' (SourceName stream) d"
    and "\<forall>s. \<not> flt s"
  shows "\<exists>d1 d2. RegisterStream checkStream flt c now1 stream d = (None, d1)
           \<and> RegisterStream checkStream flt c now2 stream d1 = (None, d2)
           \<and> streams d2 = streams d1
           \<and> triples d2 =
               (if BrickURI stream = [] \<or> classification_triple stream now2 \<in> set (triples d1)
                then triples d1
                else triples d1 @ [classification_triple stream now2])"
proof -
  from register_txn_no_faults [OF assms(4), of now1 stream d]
  obtain d1 where d1: "register_txn flt now1 stream d = (None, d1)"
      "authorizations d1 = authorizations d"
      "streams d1 = streams (upsert_stream (Name stream) (SourceName stream) (Units stream)
          (if BrickURI stream \<noteq> [] then Some (BrickURI stream) else None)
          (if BrickClass stream \<noteq> [] then Some (BrickClass stream) else None) d)"
    by blast
  from register_txn_no_faults [OF assms(4), of now2 stream d1]
  obtain d2 where d2: "register_txn flt now2 stream d1 = (None, d2)"
      "streams d2 = streams (upsert_stream (Name stream) (SourceName stream) (Units stream)
          (if BrickURI stream \<noteq> [] then Some (BrickURI stream) else None)
          (if BrickClass stream \<noteq> [] then Some (BrickClass stream) else None) d1)"
      "triples d2 =
          (if BrickURI stream = [] \<or> classification_triple stream now2 \<in> set (triples d1)
           then triples d1 else triples d1 @ [classification_triple stream now2])"
    by blast
  have a: "0 < count_authorizations k ''write'' (SourceName stream) d1"
    using assms(3) d1(2) by (simp add: count_authorizations_def)
  have "RegisterStream checkStream flt c now1 stream d = (None, d1)"
    using RegisterStream_authorized [where checkStream = checkStream and stream = stream and flt = flt, OF assms(1,2,3,4), of now1] d1(1) by simp
  moreover have "RegisterStream checkStream flt c now2 stream d1 = (None, d2)"
    using RegisterStream_authorized [where checkStream = checkStream and stream = stream and flt = flt, OF assms(1,2) a assms(4), of now2] d2(1) by simp
  moreover have "streams d2 = streams d1"
    unfolding d2(2) by (rule upsert_stream_again [OF d1(3)])
  ultimately show ?thesis
    using d2(3) by blast
qed

lemmas register_defs =
  RegisterStream_def checkAuth_def count_authorizations_def RunAsTransaction_def
  register_txn_def upsert_stream_def insert_triple_def classification_triple_def
  same_stream_def do_update_def bracket_def rdf_type_def brick_point_def Let_def

lemmas example_defs =
  no_faults_def accept_def alice_def mallory_def store0_def temp1_def

text \<open>
  Claim C1.  Registering a stream that has a classification URI twice, with identical
  fields, should leave the store as after one call: the same id, the same stored row,
  and exactly one classification (\<open>rdf:type\<close>) triple for the stream.

  The stream keeps its id and its row.  The triple log does not stay as it was: the row
  the source inserts carries \<^verbatim>\<open>time.Now()\<close> in the column \<open>time\<close>, which is part of
  the key that \<^verbatim>\<open>ON CONFLICT DO NOTHING\<close> compares, so a second call made at a
  later clock reading appends a second classification triple.  Evaluated on the store
  \<open>store0\<close>, for the stream \<open>temp1\<close> registered at the clock readings 1 and 2:
\<close>

theorem RegisterStream_twice_two_classification_triples:
  "(let first = RegisterStream accept no_faults alice 1 temp1 store0;
        second = RegisterStream accept no_faults alice 2 temp1 (snd first)
    in fst first = None \<and> fst second = None
     \<and> streams (snd second) = streams (snd first)
     \<and> classification_triples temp1 (snd first) = [classification_triple temp1 1]
     \<and> classification_triples temp1 (snd second) =
         [classification_triple temp1 1, classification_triple temp1 2])"
  by (simp add: register_defs example_defs classification_triples_def)

section \<open>Properties of the transactions\<close>

lemma rolled_back_same: "streams_seq d' = streams_seq d \<Longrightarrow> rolled_back d d' = d"
  by (simp add: rolled_back_def)

lemma RunAsTransaction_failure:
  assumes "\<And>x. streams_seq (snd (f x)) = streams_seq x"
  shows "fst (RunAsTransaction flt f d) \<noteq> None \<Longrightarrow> snd (RunAsTransaction flt f d) = d"
  using assms [of d]
  by (auto simp: RunAsTransaction_def rolled_back_same split: prod.splits option.splits if_splits)

section \<open>Properties of InsertHistoricalData\<close>

lemma data_key_update_value [simp]: "data_key (r\<lparr>d_value := v\<rparr>) = data_key r"
  by (simp add: data_key_def)

lemma data_key_set_value [simp]: "data_key (set_value e r) = data_key r"
  by (simp add: set_value_def)

lemma data_row_eqI: "data_key a = data_key b \<Longrightarrow> d_value a = d_value b \<Longrightarrow> (a :: 'v data_row) = b"
  by (cases a; cases b) (simp add: data_key_def)

lemma distinct_upsert_reading:
  "distinct (map data_key rows) \<Longrightarrow> distinct (map data_key (upsert_reading r rows))"
  by (auto simp: upsert_reading_def comp_def image_iff)

lemma filter_key_distinct:
  "distinct (map data_key rows) \<Longrightarrow> x \<in> set rows \<Longrightarrow> filter (\<lambda>y. data_key y = data_key x) rows = [x]"
proof (induction rows)
  case Nil
  then show ?case by simp
next
  case (Cons a rows)
  show ?case
  proof (cases "x = a")
    case True
    with Cons.prems have "filter (\<lambda>y. data_key y = data_key a) rows = []"
      by (auto simp: filter_empty_conv image_iff)
    with True show ?thesis by simp
  next
    case False
    with Cons show ?thesis by (auto simp: image_iff)
  qed
qed

lemma upsert_reading_this:
  assumes "distinct (map data_key rows)"
  shows "filter (\<lambda>y. data_key y = data_key r) (upsert_reading r rows) = [r]"
proof (cases "\<exists>x \<in> set rows. data_key x = data_key r")
  case True
  then obtain x where x: "x \<in> set rows" "data_key x = data_key r" by blast
  have "set_value r x = r"
    using x by (intro data_row_eqI) (simp_all add: set_value_def)
  moreover have "set_value r x \<in> set (upsert_reading r rows)"
    using x True by (auto simp: upsert_reading_def)
  ultimately have "r \<in> set (upsert_reading r rows)" by simp
  from filter_key_distinct [OF distinct_upsert_reading [OF assms] this] show ?thesis .
next
  case False
  then have "filter (\<lambda>y. data_key y = data_key r) rows = []"
    by (auto simp: filter_empty_conv)
  with False show ?thesis by (simp add: upsert_reading_def)
qed

lemma upsert_reading_other:
  "k \<noteq> data_key r \<Longrightarrow>
   filter (\<lambda>y. data_key y = k) (upsert_reading r rows) = filter (\<lambda>y. data_key y = k) rows"
proof -
  assume k: "k \<noteq> data_key r"
  have "filter (\<lambda>y. data_key y = k) (map (set_value r) rows) = filter (\<lambda>y. data_key y = k) rows"
    using k by (induction rows) (auto simp: set_value_def)
  with k show ?thesis by (auto simp: upsert_reading_def)
qed

lemma merge_data_error: "merge_data staged touched rows = Inl e \<Longrightarrow> e = CardinalityViolation"
  by (induction staged arbitrary: touched rows) (auto split: if_splits)

lemma merge_data_touched:
  "merge_data staged touched rows = Inr rows' \<Longrightarrow> k \<in> set touched \<Longrightarrow> k \<notin> set (map data_key staged)"
  by (induction staged arbitrary: touched rows) (auto split: if_splits)

lemma merge_data_ok:
  "distinct (map data_key staged) \<Longrightarrow> set (map data_key staged) \<inter> set touched = {} \<Longrightarrow>
   \<exists>rows'. merge_data staged touched rows = Inr rows'"
proof (induction staged arbitrary: touched rows)
  case Nil
  then show ?case by simp
next
  case (Cons r staged)
  then have "set (map data_key staged) \<inter> set (data_key r # touched) = {}" by auto
  with Cons show ?case by auto
qed

lemma merge_data_touched_fails:
  "k \<in> set touched \<Longrightarrow> k \<in> set (map data_key staged) \<Longrightarrow>
   merge_data staged touched rows = Inl CardinalityViolation"
proof (cases "merge_data staged touched rows")
  case (Inl e)
  then show ?thesis by (simp add: merge_data_error)
next
  case (Inr rows')
  assume "k \<in> set touched" "k \<in> set (map data_key staged)"
  with merge_data_touched [OF Inr] show ?thesis by blast
qed

lemma merge_data_duplicate:
  "\<not> distinct (map data_key staged) \<Longrightarrow> merge_data staged touched rows = Inl CardinalityViolation"
proof (induction staged arbitrary: touched rows)
  case Nil
  then show ?case by simp
next
  case (Cons r staged)
  show ?case
  proof (cases "data_key r \<in> set (map data_key staged)")
    case True
    then show ?thesis
      by (simp add: merge_data_touched_fails [of "data_key r"])
  next
    case False
    with Cons.prems have "\<not> distinct (map data_key staged)" by simp
    then show ?thesis by (simp add: Cons.IH)
  qed
qed

text \<open>
  What a merge that succeeds leaves: the key stays unique; each staged row is the one
  row of its key; the rows of every other key are as before.
\<close>

lemma merge_data_result:
  assumes "merge_data staged touched rows = Inr rows'" "distinct (map data_key rows)"
  shows "distinct (map data_key rows')
    \<and> (\<forall>r \<in> set staged. filter (\<lambda>y. data_key y = data_key r) rows' = [r])
    \<and> (\<forall>k. k \<notin> set (map data_key staged) \<longrightarrow>
          filter (\<lambda>y. data_key y = k) rows' = filter (\<lambda>y. data_key y = k) rows)"
  using assms
proof (induction staged arbitrary: touched rows)
  case Nil
  then show ?case by simp
next
  case (Cons r staged)
  from Cons.prems(1) have nt: "data_key r \<notin> set touched"
    and m: "merge_data staged (data_key r # touched) (upsert_reading r rows) = Inr rows'"
    by (auto split: if_splits)
  have d: "distinct (map data_key (upsert_reading r rows))"
    using Cons.prems(2) by (rule distinct_upsert_reading)
  note ih = Cons.IH [OF m d]
  have fresh: "data_key r \<notin> set (map data_key staged)"
    using m by (rule merge_data_touched) simp
  from ih fresh have "filter (\<lambda>y. data_key y = data_key r) rows' =
      filter (\<lambda>y. data_key y = data_key r) (upsert_reading r rows)"
    by blast
  then have this_row: "filter (\<lambda>y. data_key y = data_key r) rows' = [r]"
    by (simp add: upsert_reading_this [OF Cons.prems(2)])
  have other: "filter (\<lambda>y. data_key y = k) rows' = filter (\<lambda>y. data_key y = k) rows"
    if "k \<notin> set (map data_key (r # staged))" for k
  proof -
    from that have k: "k \<noteq> data_key r" "k \<notin> set (map data_key staged)" by auto
    from ih k(2) have "filter (\<lambda>y. data_key y = k) rows' =
        filter (\<lambda>y. data_key y = k) (upsert_reading r rows)"
      by blast
    with k(1) show ?thesis by (simp add: upsert_reading_other)
  qed
  from ih have "distinct (map data_key rows')"
    and "\<forall>x \<in> set staged. filter (\<lambda>y. data_key y = data_key x) rows' = [x]"
    by blast+
  with this_row other show ?case by (simp del: split_paired_All)
qed

lemma keys_staged_readings:
  "map data_key (staged_readings i ds) = map (\<lambda>t. (t, i)) (map fst (GetReadings ds))"
  by (simp add: staged_readings_def data_key_def comp_def case_prod_unfold)

lemma distinct_staged_readings:
  "distinct (map data_key (staged_readings i ds)) = distinct (map fst (GetReadings ds))"
  unfolding keys_staged_readings by (simp add: distinct_map inj_on_def)

lemma staged_reading_mem:
  "(t, v) \<in> set (GetReadings ds) \<Longrightarrow>
   \<lparr>d_time = t, d_stream_id = i, d_value = v\<rparr> \<in> set (staged_readings i ds)"
  by (force simp: staged_readings_def)

lemma insert_txn_seq: "streams_seq (snd (insert_txn flt ds d)) = streams_seq d"
  by (auto simp: insert_txn_def Let_def split: sum.splits)

lemma InsertHistoricalData_failure:
  "fst (InsertHistoricalData chk flt c ds d) \<noteq> None \<Longrightarrow> snd (InsertHistoricalData chk flt c ds d) = d"
  using RunAsTransaction_failure [of "insert_txn flt ds" flt d, OF insert_txn_seq]
  by (auto simp: InsertHistoricalData_def split: option.splits sum.splits)

lemma insert_txn_staging:
  "fst (insert_txn flt ds d) = None \<Longrightarrow> data_temp (snd (insert_txn flt ds d)) = None"
  by (auto simp: insert_txn_def Let_def split: sum.splits if_splits)

lemma InsertHistoricalData_staging:
  assumes "data_temp d = None"
  shows "data_temp (snd (InsertHistoricalData chk flt c ds d)) = None"
proof (cases "fst (InsertHistoricalData chk flt c ds d)")
  case None
  then show ?thesis
    using insert_txn_staging [of flt ds d]
    by (auto simp: InsertHistoricalData_def RunAsTransaction_def
        split: option.splits sum.splits if_splits prod.splits)
next
  case (Some e)
  with assms show ?thesis
    using InsertHistoricalData_failure [of chk flt c ds d] by simp
qed

lemma select_stream_id_none:
  "\<forall>r \<in> set (streams d). \<not> same_stream src nm r \<Longrightarrow> select_stream_id src nm d = Inl ErrNoRows"
  by (simp add: select_stream_id_def filter_False)

lemma insert_txn_unregistered:
  assumes "\<forall>r \<in> set (streams d). \<not> same_stream (GetSource ds) (GetName ds) r"
  shows "insert_txn flt ds d =
     (Some (NoSuchStream (GetSource ds) (GetName ds)
              (if flt SelectStreamId then Fault SelectStreamId else ErrNoRows)), d)"
  by (simp add: insert_txn_def select_stream_id_none [OF assms])

lemma InsertHistoricalData_unregistered_fails:
  assumes "\<forall>r \<in> set (streams d). \<not> same_stream (GetSource ds) (GetName ds) r"
  shows "fst (InsertHistoricalData chk flt c ds d) \<noteq> None"
  by (auto simp: InsertHistoricalData_def RunAsTransaction_def insert_txn_unregistered [OF assms]
      split: option.splits sum.splits)

lemma InsertHistoricalData_not_found:
  assumes "\<forall>r \<in> set (streams d). \<not> same_stream (GetSource ds) (GetName ds) r"
    and "chk ds = None" "user c = Some k" "count_authorizations k ''write'' (GetSource ds) d > 0"
    and "\<not> flt AuthQuery" "\<not> flt Acquire" "\<not> flt Begin" "\<not> flt SelectStreamId"
  shows "InsertHistoricalData chk flt c ds d =
          (Some (if flt Rollback
                 then CouldNotRollback (NoSuchStream (GetSource ds) (GetName ds) ErrNoRows) (Fault Rollback)
                 else TransactionExecution (NoSuchStream (GetSource ds) (GetName ds) ErrNoRows)), d)"
  using assms(2-)
  by (simp add: InsertHistoricalData_def checkAuth_def RunAsTransaction_def
      insert_txn_unregistered [OF assms(1)] rolled_back_same)

lemma InsertHistoricalData_duplicate_key:
  assumes "chk ds = None" "user c = Some k" "count_authorizations k ''write'' (GetSource ds) d > 0"
    and "\<forall>s. \<not> flt s"
    and "select_stream_id (GetSource ds) (GetName ds) d = Inr i"
    and "data_temp d = None"
    and "\<not> distinct (map fst (GetReadings ds))"
  shows "InsertHistoricalData chk flt c ds d =
          (Some (TransactionExecution (CannotInsertReadings i CardinalityViolation)), d)"
proof -
  from assms(7) have "merge_data (staged_readings i ds) [] (data d) = Inl CardinalityViolation"
    by (simp add: merge_data_duplicate distinct_staged_readings)
  with assms(1-6) show ?thesis
    by (simp add: InsertHistoricalData_def checkAuth_def RunAsTransaction_def insert_txn_def
        Let_def rolled_back_def)
qed

lemma InsertHistoricalData_upserts:
  assumes "chk ds = None" "user c = Some k" "count_authorizations k ''write'' (GetSource ds) d > 0"
    and "\<forall>s. \<not> flt s"
    and "select_stream_id (GetSource ds) (GetName ds) d = Inr i"
    and "data_temp d = None"
    and "distinct (map fst (GetReadings ds))"
    and "distinct (map data_key (data d))"
  shows "\<exists>rows'. InsertHistoricalData chk flt c ds d = (None, d\<lparr>data := rows'\<rparr>)
           \<and> distinct (map data_key rows')
           \<and> (\<forall>r \<in> set (staged_readings i ds). filter (\<lambda>y. data_key y = data_key r) rows' = [r])
           \<and> (\<forall>k. k \<notin> set (map data_key (staged_readings i ds)) \<longrightarrow>
                 filter (\<lambda>y. data_key y = k) rows' = filter (\<lambda>y. data_key y = k) (data d))"
proof -
  from assms(7) have "distinct (map data_key (staged_readings i ds))"
    by (simp add: distinct_staged_readings)
  from merge_data_ok [OF this, of "[]" "data d"]
  obtain rows' where m: "merge_data (staged_readings i ds) [] (data d) = Inr rows'" by auto
  have "d\<lparr>data_temp := Some (staged_readings i ds), data := rows', data_temp := None\<rparr> = d\<lparr>data := rows'\<rparr>"
    using assms(6) by (cases d) simp
  with assms(1-6) m have "InsertHistoricalData chk flt c ds d = (None, d\<lparr>data := rows'\<rparr>)"
    by (simp add: InsertHistoricalData_def checkAuth_def RunAsTransaction_def insert_txn_def Let_def)
  with merge_data_result [OF m assms(8)] show ?thesis by blast
qed

lemma count_authorizations_data [simp]:
  "count_authorizations k p s (d\<lparr>data := rows\<rparr>) = count_authorizations k p s d"
  by (simp add: count_authorizations_def)

lemma select_stream_id_data [simp]:
  "select_stream_id src nm (d\<lparr>data := rows\<rparr>) = select_stream_id src nm d"
  by (simp add: select_stream_id_def)

lemma successive_calls:
  assumes "chk ds1 = None" "chk ds2 = None"
    and same: "GetSource ds2 = GetSource ds1" "GetName ds2 = GetName ds1"
    and auth: "user c = Some k" "count_authorizations k ''write'' (GetSource ds1) d > 0"
    and nf: "\<forall>s. \<not> flt s"
    and reg: "select_stream_id (GetSource ds1) (GetName ds1) d = Inr i"
    and tmp: "data_temp d = None"
    and batches: "distinct (map fst (GetReadings ds1))" "distinct (map fst (GetReadings ds2))"
    and uniq: "distinct (map data_key (data d))"
    and v2: "(t, v2) \<in> set (GetReadings ds2)"
  shows "\<exists>d1 d2. InsertHistoricalData chk flt c ds1 d = (None, d1)
          \<and> InsertHistoricalData chk flt c ds2 d1 = (None, d2)
          \<and> filter (\<lambda>y. data_key y = (t, i)) (data d2) = [\<lparr>d_time = t, d_stream_id = i, d_value = v2\<rparr>]"
proof -
  from InsertHistoricalData_upserts [where chk = chk and ds = ds1, OF assms(1) auth nf reg tmp batches(1) uniq]
  obtain rows1 where 1: "InsertHistoricalData chk flt c ds1 d = (None, d\<lparr>data := rows1\<rparr>)"
    and u1: "distinct (map data_key rows1)" by blast
  let ?d1 = "d\<lparr>data := rows1\<rparr>"
  have "\<exists>rows'. InsertHistoricalData chk flt c ds2 ?d1 = (None, ?d1\<lparr>data := rows'\<rparr>)
           \<and> distinct (map data_key rows')
           \<and> (\<forall>r \<in> set (staged_readings i ds2). filter (\<lambda>y. data_key y = data_key r) rows' = [r])
           \<and> (\<forall>k. k \<notin> set (map data_key (staged_readings i ds2)) \<longrightarrow>
                 filter (\<lambda>y. data_key y = k) rows' = filter (\<lambda>y. data_key y = k) (data ?d1))"
    using assms(2) auth nf reg tmp batches(2) u1 same
    by (intro InsertHistoricalData_upserts) simp_all
  then obtain rows2 where 2: "InsertHistoricalData chk flt c ds2 ?d1 = (None, ?d1\<lparr>data := rows2\<rparr>)"
    and r2: "\<forall>r \<in> set (staged_readings i ds2). filter (\<lambda>y. data_key y = data_key r) rows2 = [r]"
    by blast
  from r2 staged_reading_mem [OF v2, of i]
  have "filter (\<lambda>y. data_key y = (t, i)) rows2 = [\<lparr>d_time = t, d_stream_id = i, d_value = v2\<rparr>]"
    by (force simp: data_key_def)
  with 1 2 show ?thesis by simp
qed

section \<open>Claims about the write path\<close>

text \<open>
  Claim C6.  For every dataset whose \<open>(source, name)\<close> matches no registered stream,
  \<^verbatim>\<open>InsertHistoricalData\<close> should fail with a not-found error; and on failure at any
  stage the readings are unchanged and no staging relation survives.

  As stated the first part fails: validation and the authorization gate come before the
  lookup of the stream, so a caller with no grant for the source gets the authorization
  error, not the not-found error.
\<close>

theorem InsertHistoricalData_unregistered_counterexample:
  "streams store0 = []
   \<and> InsertHistoricalData accept no_faults mallory readings1 store0 =
       (Some (CannotWriteToSource ''bldg1''), store0)"
  by (simp add: InsertHistoricalData_def checkAuth_def count_authorizations_def example_defs
      readings1_def)

text \<open>
  Claim C6, amended.  \<^verbatim>\<open>InsertHistoricalData\<close> always fails for a dataset whose
  \<open>(source, name)\<close> matches no registered stream.  When the dataset passes validation,
  the caller is authorized to write the source and the round trips up to the lookup
  succeed, the failure is the not-found error (\<^verbatim>\<open>No such stream\<close>, wrapping
  \<^verbatim>\<open>ErrNoRows\<close>): \<^verbatim>\<open>RunAsTransaction\<close> returns it wrapped as the error of the
  transaction when the rollback succeeds, and, when the rollback fails as well, inside the
  error \<^verbatim>\<open>Could not rollback\<close>, which quotes it together with the error of the
  rollback.  Whatever the dataset, the caller and the stage that fails: a call that
  returns an error leaves the whole store, the readings included, as it was, and a call
  on a store without staging relation leaves none.
\<close>

theorem InsertHistoricalData_unregistered_atomic:
  "(fst (InsertHistoricalData chk flt c ds d) \<noteq> None \<longrightarrow>
      snd (InsertHistoricalData chk flt c ds d) = d)
   \<and> (data_temp d = None \<longrightarrow> data_temp (snd (InsertHistoricalData chk flt c ds d)) = None)
   \<and> ((\<forall>r \<in> set (streams d). \<not> same_stream (GetSource ds) (GetName ds) r) \<longrightarrow>
        fst (InsertHistoricalData chk flt c ds d) \<noteq> None
        \<and> (chk ds = None \<and> user c = Some k
             \<and> 0 < count_authorizations k ''write'' (GetSource ds) d
             \<and> \<not> flt AuthQuery \<and> \<not> flt Acquire \<and> \<not> flt Begin \<and> \<not> flt SelectStreamId \<longrightarrow>
            InsertHistoricalData chk flt c ds d =
              (Some (if flt Rollback
                     then CouldNotRollback (NoSuchStream (GetSource ds) (GetName ds) ErrNoRows)
                            (Fault Rollback)
                     else TransactionExecution (NoSuchStream (GetSource ds) (GetName ds) ErrNoRows)),
               d)))"
proof (intro conjI impI)
  assume "fst (InsertHistoricalData chk flt c ds d) \<noteq> None"
  then show "snd (InsertHistoricalData chk flt c ds d) = d"
    by (rule InsertHistoricalData_failure)
next
  assume "data_temp d = None"
  then show "data_temp (snd (InsertHistoricalData chk flt c ds d)) = None"
    by (rule InsertHistoricalData_staging)
next
  assume "\<forall>r \<in> set (streams d). \<not> same_stream (GetSource ds) (GetName ds) r"
  then show "fst (InsertHistoricalData chk flt c ds d) \<noteq> None"
    by (rule InsertHistoricalData_unregistered_fails)
next
  assume "\<forall>r \<in> set (streams d). \<not> same_stream (GetSource ds) (GetName ds) r"
    and "chk ds = None \<and> user c = Some k
             \<and> 0 < count_authorizations k ''write'' (GetSource ds) d
             \<and> \<not> flt AuthQuery \<and> \<not> flt Acquire \<and> \<not> flt Begin \<and> \<not> flt SelectStreamId"
  then show "InsertHistoricalData chk flt c ds d =
      (Some (if flt Rollback
             then CouldNotRollback (NoSuchStream (GetSource ds) (GetName ds) ErrNoRows)
                    (Fault Rollback)
             else TransactionExecution (NoSuchStream (GetSource ds) (GetName ds) ErrNoRows)),
       d)"
    by (intro InsertHistoricalData_not_found [where k = k]) simp_all
qed

text \<open>
  The theorem at concrete inputs: an authorized caller writing to the unregistered stream
  of \<open>store0\<close>, with a rollback that succeeds and with one that fails; and a merge that
  fails on \<open>store2\<close>, where the stream is registered.
\<close>

theorem InsertHistoricalData_unregistered_atomic_witness:
  "InsertHistoricalData accept no_faults alice readings1 store0 =
     (Some (TransactionExecution (NoSuchStream ''bldg1'' ''temp1'' ErrNoRows)), store0)
   \<and> InsertHistoricalData accept (\<lambda>s. s = Rollback) alice readings1 store0 =
     (Some (CouldNotRollback (NoSuchStream ''bldg1'' ''temp1'' ErrNoRows) (Fault Rollback)), store0)
   \<and> fst (InsertHistoricalData accept (\<lambda>s. s = Merge) alice readings1 store2) =
       Some (TransactionExecution (CannotInsertReadings 1 (Fault Merge)))
   \<and> snd (InsertHistoricalData accept (\<lambda>s. s = Merge) alice readings1 store2) = store2"
proof -
  have u: "\<forall>r \<in> set (streams store0). \<not> same_stream (GetSource readings1) (GetName readings1) r"
    by (simp add: store0_def)
  have a: "accept readings1 = None \<and> user alice = Some ''key-1''
      \<and> 0 < count_authorizations ''key-1'' ''write'' (GetSource readings1) store0"
    by (simp add: example_defs readings1_def count_authorizations_def)
  have "\<not> no_faults AuthQuery \<and> \<not> no_faults Acquire \<and> \<not> no_faults Begin
      \<and> \<not> no_faults SelectStreamId \<and> \<not> no_faults Rollback"
    by (simp add: no_faults_def)
  with u a have 1: "InsertHistoricalData accept no_faults alice readings1 store0 =
     (Some (TransactionExecution (NoSuchStream (GetSource readings1) (GetName readings1) ErrNoRows)), store0)"
    using InsertHistoricalData_unregistered_atomic
      [of accept no_faults alice readings1 store0 "''key-1''"]
    by simp
  from u a have 3: "InsertHistoricalData accept (\<lambda>s. s = Rollback) alice readings1 store0 =
     (Some (CouldNotRollback (NoSuchStream (GetSource readings1) (GetName readings1) ErrNoRows)
              (Fault Rollback)), store0)"
    using InsertHistoricalData_unregistered_atomic
      [of accept "\<lambda>s. s = Rollback" alice readings1 store0 "''key-1''"]
    by simp
  have 2: "fst (InsertHistoricalData accept (\<lambda>s. s = Merge) alice readings1 store2) =
       Some (TransactionExecution (CannotInsertReadings 1 (Fault Merge)))"
    by (simp add: InsertHistoricalData_def checkAuth_def count_authorizations_def example_defs
        readings1_def store2_def RunAsTransaction_def insert_txn_def select_stream_id_def
        same_stream_def Let_def)
  then have "snd (InsertHistoricalData accept (\<lambda>s. s = Merge) alice readings1 store2) = store2"
    using InsertHistoricalData_unregistered_atomic
      [of accept "\<lambda>s. s = Merge" alice readings1 store2 "''key-1''"]
    by simp
  with 1 2 3 show ?thesis by (simp add: readings1_def)
qed

text \<open>
  Claim C7.  Two readings with the same \<open>(stream_id, time)\<close> and different values,
  ingested in one call or in successive calls, should leave exactly one row for the key,
  holding the value ingested last.

  As stated this fails for one call: the two staged rows make the one
  \<^verbatim>\<open>INSERT ... ON CONFLICT DO UPDATE\<close> affect the same row twice, which the store
  refuses, so the call fails and no row is stored for the key.
\<close>

theorem InsertHistoricalData_same_key_in_one_call_counterexample:
  "fst (InsertHistoricalData accept no_faults alice readings_twice store2) =
     Some (TransactionExecution (CannotInsertReadings 1 CardinalityViolation))
   \<and> filter (\<lambda>y. data_key y = (100, 1))
        (data (snd (InsertHistoricalData accept no_faults alice readings_twice store2))) = []"
  by (simp add: InsertHistoricalData_def checkAuth_def count_authorizations_def example_defs
      readings_twice_def store2_def RunAsTransaction_def insert_txn_def select_stream_id_def
      same_stream_def staged_readings_def data_key_def rolled_back_def Let_def)

text \<open>
  Claim C7, amended.  For a registered stream with id \<open>i\<close>, an authorized caller, no
  failing round trip and a store in which the key of \<open>data\<close> is unique: when a call
  whose batch has no time twice is followed by a second such call for the same stream,
  each reading \<open>(t, v2)\<close> of the second batch is afterwards the one row stored for the key
  \<open>(t, i)\<close>, whatever the first call stored for it (last write wins); a call whose batch
  has a time twice fails with the store's cardinality violation and changes nothing.
\<close>

theorem InsertHistoricalData_last_write_wins:
  assumes "user c = Some k" "0 < count_authorizations k ''write'' (GetSource ds1) d"
    and "\<forall>s. \<not> flt s"
    and "select_stream_id (GetSource ds1) (GetName ds1) d = Inr i"
    and "data_temp d = None"
    and "distinct (map data_key (data d))"
    and "chk ds1 = None"
  shows "(chk ds2 = None \<and> GetSource ds2 = GetSource ds1 \<and> GetName ds2 = GetName ds1
           \<and> distinct (map fst (GetReadings ds1)) \<and> distinct (map fst (GetReadings ds2))
           \<and> (t, v2) \<in> set (GetReadings ds2) \<longrightarrow>
          (\<exists>d1 d2. InsertHistoricalData chk flt c ds1 d = (None, d1)
             \<and> InsertHistoricalData chk flt c ds2 d1 = (None, d2)
             \<and> filter (\<lambda>y. data_key y = (t, i)) (data d2) =
                 [\<lparr>d_time = t, d_stream_id = i, d_value = v2\<rparr>]))
       \<and> (\<not> distinct (map fst (GetReadings ds1)) \<longrightarrow>
            InsertHistoricalData chk flt c ds1 d =
              (Some (TransactionExecution (CannotInsertReadings i CardinalityViolation)), d))"
proof (intro conjI impI)
  assume a: "chk ds2 = None \<and> GetSource ds2 = GetSource ds1 \<and> GetName ds2 = GetName ds1
           \<and> distinct (map fst (GetReadings ds1)) \<and> distinct (map fst (GetReadings ds2))
           \<and> (t, v2) \<in> set (GetReadings ds2)"
  show "\<exists>d1 d2. InsertHistoricalData chk flt c ds1 d = (None, d1)
             \<and> InsertHistoricalData chk flt c ds2 d1 = (None, d2)
             \<and> filter (\<lambda>y. data_key y = (t, i)) (data d2) =
                 [\<lparr>d_time = t, d_stream_id = i, d_value = v2\<rparr>]"
    using assms a by (intro successive_calls [where k = k]) simp_all
next
  assume "\<not> distinct (map fst (GetReadings ds1))"
  with assms show "InsertHistoricalData chk flt c ds1 d =
              (Some (TransactionExecution (CannotInsertReadings i CardinalityViolation)), d)"
    by (intro InsertHistoricalData_duplicate_key [where k = k]) simp_all
qed

text \<open>
  The theorem on \<open>store2\<close>: the value 701 at the time 100, then the value 710 at the same
  time in a second call.
\<close>

theorem InsertHistoricalData_last_write_wins_witness:
  "\<exists>d1 d2. InsertHistoricalData accept no_faults alice readings1 store2 = (None, d1)
      \<and> InsertHistoricalData accept no_faults alice readings2 d1 = (None, d2)
      \<and> filter (\<lambda>y. data_key y = (100, 1)) (data d2) =
          [\<lparr>d_time = 100, d_stream_id = 1, d_value = 710\<rparr>]"
proof -
  have "user alice = Some ''key-1''"
    "0 < count_authorizations ''key-1'' ''write'' (GetSource readings1) store2"
    "\<forall>s. \<not> no_faults s"
    "select_stream_id (GetSource readings1) (GetName readings1) store2 = Inr 1"
    "data_temp store2 = None"
    "distinct (map data_key (data store2))"
    "accept readings1 = None"
    by (simp_all add: example_defs readings1_def store2_def count_authorizations_def
        select_stream_id_def same_stream_def)
  from InsertHistoricalData_last_write_wins [where chk = accept and ?ds2.0 = readings2
      and t = 100 and ?v2.0 = 710, OF this]
  show ?thesis
    by (simp add: readings1_def readings2_def accept_def)
qed


text \<open>
  Claim C8.  Every write operation invoked with an identity that has no matching row in
  \<open>authorizations\<close> should fail with an authorization error, with no change of the
  store; authorization succeeds iff at least one matching row exists.

  As stated this fails for a request that does not pass validation: validation comes
  before the gate, and its error is the one returned.
\<close>

theorem unauthorized_write_counterexample:
  "user mallory = Some ''key-2''
   \<and> count_authorizations ''key-2'' ''write'' ''bldg1'' store0 = 0
   \<and> RegisterStream checkStream_spec no_faults mallory 1 (temp1\<lparr>Name := []\<rparr>) store0 =
       (Some (CannotRegisterInvalidStream (Invalid ''name is empty'')), store0)"
  by (simp add: RegisterStream_def checkStream_spec_def count_authorizations_def example_defs)

text \<open>
  Claim C8, amended.  With an identity \<open>k\<close> in the context: \<^verbatim>\<open>checkAuth\<close>, when its
  query executes, answers whether \<open>authorizations\<close> has a row \<open>(k, permission, source)\<close>.
  A write operation (\<^verbatim>\<open>RegisterStream\<close>, \<^verbatim>\<open>InsertHistoricalData\<close>,
  \<^verbatim>\<open>AddTriples\<close>) whose request passes validation and for whose source \<open>k\<close> has no row
  \<open>(k, write, source)\<close> fails with the authorization error (\<^verbatim>\<open>Cannot write to source\<close>,
  or \<^verbatim>\<open>Cannot determine authorized status\<close> when the query itself fails) and returns
  the store it was given: nothing is changed, and no staging relation is created.
\<close>

theorem unauthorized_write_rejected:
  assumes "user c = Some k"
  shows "(\<not> flt AuthQuery \<longrightarrow>
            checkAuth flt c permission src d =
              Inr (\<exists>r \<in> set (authorizations d).
                     a_apikey r = k \<and> a_permission r = permission \<and> a_source r = src))
       \<and> (checkStream stream = None \<and> count_authorizations k ''write'' (SourceName stream) d = 0 \<longrightarrow>
            RegisterStream checkStream flt c now stream d =
              (Some (if flt AuthQuery then CannotDetermineAuthorized (Fault AuthQuery)
                     else CannotWriteToSource (SourceName stream)), d))
       \<and> (checkDataset ds = None \<and> count_authorizations k ''write'' (GetSource ds) d = 0 \<longrightarrow>
            InsertHistoricalData checkDataset flt c ds d =
              (Some (if flt AuthQuery then CannotDetermineAuthorized (Fault AuthQuery)
                     else CannotWriteToSource (GetSource ds)), d))
       \<and> (checkTripleDataset tds = None \<and> count_authorizations k ''write'' (GetTripleSource tds) d = 0 \<longrightarrow>
            AddTriples checkTripleDataset flt c tds d =
              (Some (if flt AuthQuery then CannotDetermineAuthorized (Fault AuthQuery)
                     else CannotWriteToSource (GetTripleSource tds)), d))"
proof (intro conjI impI)
  assume "\<not> flt AuthQuery"
  with assms show "checkAuth flt c permission src d =
      Inr (\<exists>r \<in> set (authorizations d).
             a_apikey r = k \<and> a_permission r = permission \<and> a_source r = src)"
    by (auto simp: checkAuth_def count_authorizations_def filter_empty_conv)
next
  assume "checkStream stream = None \<and> count_authorizations k ''write'' (SourceName stream) d = 0"
  with assms show "RegisterStream checkStream flt c now stream d =
      (Some (if flt AuthQuery then CannotDetermineAuthorized (Fault AuthQuery)
             else CannotWriteToSource (SourceName stream)), d)"
    by (simp add: RegisterStream_def checkAuth_def)
next
  assume "checkDataset ds = None \<and> count_authorizations k ''write'' (GetSource ds) d = 0"
  with assms show "InsertHistoricalData checkDataset flt c ds d =
      (Some (if flt AuthQuery then CannotDetermineAuthorized (Fault AuthQuery)
             else CannotWriteToSource (GetSource ds)), d)"
    by (simp add: InsertHistoricalData_def checkAuth_def)
next
  assume "checkTripleDataset tds = None \<and> count_authorizations k ''write'' (GetTripleSource tds) d = 0"
  with assms show "AddTriples checkTripleDataset flt c tds d =
      (Some (if flt AuthQuery then CannotDetermineAuthorized (Fault AuthQuery)
             else CannotWriteToSource (GetTripleSource tds)), d)"
    by (simp add: AddTriples_def checkAuth_def)
qed

text \<open>
  The theorem for the identity \<open>key-2\<close>, which has no grant in \<open>store0\<close>, and \<open>key-1\<close>,
  which has one.
\<close>

theorem unauthorized_write_rejected_witness:
  "checkAuth no_faults mallory ''write'' ''bldg1'' store0 = Inr False
   \<and> checkAuth no_faults alice ''write'' ''bldg1'' store0 = Inr True
   \<and> RegisterStream checkStream_spec no_faults mallory 1 temp1 store0 =
       (Some (CannotWriteToSource ''bldg1''), store0)
   \<and> InsertHistoricalData accept no_faults mallory readings1 store0 =
       (Some (CannotWriteToSource ''bldg1''), store0)
   \<and> AddTriples accept no_faults mallory triples1 store0 =
       (Some (CannotWriteToSource ''bldg1''), store0)"
proof -
  have m: "user mallory = Some ''key-2''" and a: "user alice = Some ''key-1''"
    by (simp_all add: example_defs)
  have nf: "\<not> no_faults AuthQuery" by (simp add: no_faults_def)
  have v: "checkStream_spec temp1 = None" "accept readings1 = None" "accept triples1 = None"
    by (simp_all add: checkStream_spec_def example_defs)
  have z: "count_authorizations ''key-2'' ''write'' (SourceName temp1) store0 = 0"
    "count_authorizations ''key-2'' ''write'' (GetSource readings1) store0 = 0"
    "count_authorizations ''key-2'' ''write'' (GetTripleSource triples1) store0 = 0"
    by (simp_all add: count_authorizations_def example_defs readings1_def triples1_def)
  note th = unauthorized_write_rejected [OF m, where flt = no_faults and permission = "''write''"
      and src = "''bldg1''" and d = store0 and checkStream = checkStream_spec and stream = temp1
      and checkDataset = accept and ds = readings1 and checkTripleDataset = accept
      and tds = triples1 and now = 1]
  note th' = unauthorized_write_rejected [OF a, where flt = no_faults and permission = "''write''"
      and src = "''bldg1''" and d = store0]
  from th nf have 1: "checkAuth no_faults mallory ''write'' ''bldg1'' store0 = Inr False"
    by (simp add: store0_def)
  from th' nf have 2: "checkAuth no_faults alice ''write'' ''bldg1'' store0 = Inr True"
    by (simp add: store0_def)
  from th v z nf have "RegisterStream checkStream_spec no_faults mallory 1 temp1 store0 =
       (Some (CannotWriteToSource (SourceName temp1)), store0)"
    "InsertHistoricalData accept no_faults mallory readings1 store0 =
       (Some (CannotWriteToSource (GetSource readings1)), store0)"
    "AddTriples accept no_faults mallory triples1 store0 =
       (Some (CannotWriteToSource (GetTripleSource triples1)), store0)"
    by simp_all
  with 1 2 show ?thesis
    by (simp add: temp1_def readings1_def triples1_def)
qed


section \<open>Properties of GetGraph\<close>

lemma insort_key_iso:
  fixes f :: "'a::linorder \<Rightarrow> 'b::linorder"
  assumes "\<And>a b. f a \<le> f b \<longleftrightarrow> a \<le> b"
  shows "insort_key f x ys = insort x ys"
  by (induction ys) (simp_all add: assms)

lemma sort_key_iso:
  fixes f :: "'a::linorder \<Rightarrow> 'b::linorder"
  assumes "\<And>a b. f a \<le> f b \<longleftrightarrow> a \<le> b"
  shows "sort_key f xs = sort xs"
  by (induction xs) (simp_all add: insort_key_iso [of f, OF assms])

lemma insort_key_map: "insort_key f (g x) (map g ys) = map g (insort_key (\<lambda>a. f (g a)) x ys)"
  by (induction ys) simp_all

lemma sort_key_map: "sort_key f (map g xs) = map g (sort_key (\<lambda>a. f (g a)) xs)"
  by (induction xs) (simp_all add: insort_key_map)

lemma order_key_wrap_iso: "(order_key (wrap a) \<le> order_key (wrap b)) = (a \<le> b)"
  by (cases a; cases b) (auto simp: order_key_def wrap_def nulls_last_def less_eq_prod_def less_prod_def)

lemma sort_wrapped: "sort_key order_key (map wrap xs) = map wrap (sort xs)"
proof -
  have "sort_key (\<lambda>a. order_key (wrap a)) xs = sort xs"
    by (rule sort_key_iso) (simp add: order_key_wrap_iso)
  then show ?thesis by (simp add: sort_key_map)
qed

lemma scan_rows_wrapped: "scan_rows (map wrap xs) = Inr xs"
  by (induction xs) (auto simp: wrap_def scan_spo_def)

lemma sort_mset_cong: "mset xs = mset ys \<Longrightarrow> sort xs = sort ys"
  by (metis properties_for_sort sorted_sort mset_sort)

lemma mset_concat_groups:
  "distinct ks \<Longrightarrow>
   mset (concat (map (\<lambda>k. filter (\<lambda>r. P r \<and> f r = k) rows) ks)) =
   mset (filter (\<lambda>r. P r \<and> f r \<in> set ks) rows)"
proof (induction ks)
  case Nil
  then show ?case by simp
next
  case (Cons k ks)
  have "mset (filter (\<lambda>r. P r \<and> f r = k) rows) + mset (filter (\<lambda>r. P r \<and> f r \<in> set ks) rows)
        = mset (filter (\<lambda>r. P r \<and> (f r = k \<or> f r \<in> set ks)) rows)"
    using Cons.prems by (induction rows) auto
  with Cons show ?case by simp
qed

lemma remdups_map_inj: "inj f \<Longrightarrow> remdups (map f xs) = map f (remdups xs)"
  by (induction xs) (auto simp: inj_def)

lemma latest_alt:
  "latest ts g rows =
     map (\<lambda>org. (g, org, Max (set (map t_time (group_of ts g org rows)))))
       (remdups (map t_origin (filter (\<lambda>r. t_time r \<le> ts \<and> t_source r = g) rows)))"
proof -
  let ?sel = "filter (\<lambda>r. t_time r \<le> ts \<and> t_source r = g) rows"
  have m: "map (\<lambda>r. (t_source r, t_origin r)) ?sel = map (\<lambda>org. (g, org)) (map t_origin ?sel)"
    by (induction rows) auto
  have i: "inj (\<lambda>org. (g, org))" by (simp add: inj_on_def)
  have "remdups (map (\<lambda>r. (t_source r, t_origin r)) ?sel)
      = map (\<lambda>org. (g, org)) (remdups (map t_origin ?sel))"
    unfolding m by (rule remdups_map_inj [OF i])
  then show ?thesis
    by (simp add: latest_def Let_def group_of_def comp_def)
qed

lemma group_of_iff:
  "r \<in> set (group_of ts g org rows) \<longleftrightarrow>
   r \<in> set rows \<and> t_source r = g \<and> t_origin r = org \<and> t_time r \<le> ts"
  by (auto simp: group_of_def)

lemma partners_current:
  assumes org: "org \<in> set (origins ts g rows)"
  defines "m \<equiv> Max (set (map t_time (group_of ts g org rows)))"
  shows "filter (\<lambda>r. t_source r = g \<and> t_origin r = org \<and> t_time r = m) rows =
         filter (\<lambda>r. current_at ts g rows r \<and> t_origin r = org) rows"
    and "filter (\<lambda>r. t_source r = g \<and> t_origin r = org \<and> t_time r = m) rows \<noteq> []"
proof -
  let ?T = "set (map t_time (group_of ts g org rows))"
  from org have ne: "?T \<noteq> {}"
    by (auto simp: origins_def group_of_def filter_empty_conv)
  have fin: "finite ?T" by simp
  from Max_in [OF fin ne] obtain r0 where r0: "r0 \<in> set (group_of ts g org rows)" "t_time r0 = m"
    by (auto simp: m_def)
  have ge: "t_time r \<le> m" if "r \<in> set (group_of ts g org rows)" for r
    unfolding m_def using that by (intro Max_ge) auto
  have eq: "(t_source r = g \<and> t_origin r = org \<and> t_time r = m) =
            (current_at ts g rows r \<and> t_origin r = org)" if "r \<in> set rows" for r
  proof
    assume a: "t_source r = g \<and> t_origin r = org \<and> t_time r = m"
    with r0 have "t_time r \<le> ts" by (simp add: group_of_iff)
    moreover have "t_time r' \<le> t_time r"
      if "r' \<in> set rows" "t_source r' = g" "t_origin r' = t_origin r" "t_time r' \<le> ts" for r'
      using ge [of r'] that a by (simp add: group_of_iff)
    ultimately show "current_at ts g rows r \<and> t_origin r = org"
      using a by (auto simp: current_at_def)
  next
    assume a: "current_at ts g rows r \<and> t_origin r = org"
    then have "r \<in> set (group_of ts g org rows)"
      using that by (simp add: group_of_iff current_at_def)
    then have "t_time r \<le> m" by (rule ge)
    moreover from a r0 have "m \<le> t_time r"
      by (auto simp: current_at_def group_of_iff)
    ultimately show "t_source r = g \<and> t_origin r = org \<and> t_time r = m"
      using a by (simp add: current_at_def)
  qed
  show "filter (\<lambda>r. t_source r = g \<and> t_origin r = org \<and> t_time r = m) rows =
         filter (\<lambda>r. current_at ts g rows r \<and> t_origin r = org) rows"
    by (rule filter_cong) (simp_all add: eq)
  from r0 show "filter (\<lambda>r. t_source r = g \<and> t_origin r = org \<and> t_time r = m) rows \<noteq> []"
    by (auto simp: filter_empty_conv group_of_iff)
qed

lemma current_origin: "r \<in> set rows \<Longrightarrow> current_at ts g rows r \<Longrightarrow> t_origin r \<in> set (origins ts g rows)"
  by (auto simp: origins_def current_at_def)

lemma right_join_latest_current:
  "right_join_latest rows (latest ts g rows) =
   map wrap (map spo (concat (map (\<lambda>org. filter (\<lambda>r. current_at ts g rows r \<and> t_origin r = org) rows)
                                (origins ts g rows))))"
proof -
  have "(case filter (\<lambda>r. t_source r = g \<and> t_origin r = org \<and>
                t_time r = Max (set (map t_time (group_of ts g org rows)))) rows of
           [] \<Rightarrow> [(None, None, None)]
         | ms \<Rightarrow> map (\<lambda>r. (Some (t_s r), Some (t_p r), Some (t_o r))) ms)
        = map wrap (map spo (filter (\<lambda>r. current_at ts g rows r \<and> t_origin r = org) rows))"
    if "org \<in> set (origins ts g rows)" for org
    using partners_current [OF that]
    by (auto simp: wrap_def spo_def split: list.splits)
  then show ?thesis
    by (simp add: right_join_latest_def latest_alt origins_def [symmetric] map_concat comp_def cong: map_cong)
qed

lemma mset_right_join_rows:
  "mset (concat (map (\<lambda>org. filter (\<lambda>r. current_at ts g rows r \<and> t_origin r = org) rows)
                                (origins ts g rows)))
   = mset (filter (current_at ts g rows) rows)"
proof -
  have "mset (concat (map (\<lambda>org. filter (\<lambda>r. current_at ts g rows r \<and> t_origin r = org) rows)
                                (origins ts g rows)))
    = mset (filter (\<lambda>r. current_at ts g rows r \<and> t_origin r \<in> set (origins ts g rows)) rows)"
    by (rule mset_concat_groups) (simp add: origins_def)
  also have "filter (\<lambda>r. current_at ts g rows r \<and> t_origin r \<in> set (origins ts g rows)) rows
     = filter (current_at ts g rows) rows"
    by (rule filter_cong) (auto dest: current_origin)
  finally show ?thesis .
qed

lemma graph_query_AsOf: "scan_rows (graph_query ts g d) = Inr (AsOf g ts d)"
proof -
  let ?sel = "concat (map (\<lambda>org. filter (\<lambda>r. current_at ts g (triples d) r \<and> t_origin r = org) (triples d))
                                (origins ts g (triples d)))"
  have "graph_query ts g d = map wrap (sort (map spo ?sel))"
    by (simp only: graph_query_def right_join_latest_current sort_wrapped)
  moreover have "sort (map spo ?sel) = AsOf g ts d"
    unfolding AsOf_def by (rule sort_mset_cong) (simp add: mset_right_join_rows)
  ultimately show ?thesis by (simp add: scan_rows_wrapped)
qed




subsection \<open>The output loop\<close>


lemma recode_decode_error:
  assumes "\<forall>w t. encode k w t = Inr (enc w t)"
  shows "recode k i (map Inr ts @ Inl e # rest) w =
           (Some (CouldNotDecodeTriple (i + length ts) e), foldl enc w ts)"
  by (induction ts arbitrary: i w) (simp_all add: assms)

lemma recode_encode_error:
  assumes "\<forall>w t. t \<in> set ts \<longrightarrow> encode k w t = Inr (enc w t)"
    and "encode k (foldl enc w ts) t = Inl e"
  shows "recode k i (map Inr ts @ Inr t # rest) w = (Some (CouldNotEncodeTriple e), foldl enc w ts)"
  using assms by (induction ts arbitrary: i w) simp_all

lemma recode_close_error:
  assumes "\<forall>w t. encode k w t = Inr (enc w t)" "close_encoder k (foldl enc w ts) = Inl e"
  shows "recode k i (map Inr ts) w = (Some (EncoderClose e), foldl enc w ts)"
  using assms by (induction ts arbitrary: i w) simp_all

text \<open>
  A statement the decoder cannot read ends \<^verbatim>\<open>GetGraph\<close> with an error that names
  its position; the output holds the triples before it.
\<close>

lemma GetGraph_decode_error:
  assumes "\<not> flt GraphQuery"
    and "decode k (concat (map statement_line (AsOf g ts d))) = map Inr tps @ Inl e # rest"
    and "\<forall>w t. encode k w t = Inr (enc w t)"
  shows "GetGraph k flt \<lparr>Graph = g, Timestamp = ts\<rparr> w d =
           (Some (CouldNotDecodeTriple (length tps) e), foldl enc w tps)"
  using assms(1,2) recode_decode_error [OF assms(3), of 0 tps e rest w]
  by (simp add: GetGraph_def graph_query_AsOf)





section \<open>Properties of ReadDataChunk\<close>

lemma split_frames_small: "length rows \<le> flush_threshold \<Longrightarrow> split_frames rows = [rows]"
  by (subst split_frames.simps) simp

lemma split_frames_large:
  "length rows > flush_threshold \<Longrightarrow>
   split_frames rows = take (Suc flush_threshold) rows # split_frames (drop (Suc flush_threshold) rows)"
  by (subst split_frames.simps) simp

lemma concat_split_frames: "concat (split_frames rows) = rows"
proof (induction rows rule: split_frames.induct)
  case (1 rows)
  show ?case
  proof (cases "length rows > flush_threshold")
    case True
    then have "concat (split_frames rows) =
        take (Suc flush_threshold) rows @ concat (split_frames (drop (Suc flush_threshold) rows))"
      by (simp only: split_frames_large concat.simps)
    also have "\<dots> = take (Suc flush_threshold) rows @ drop (Suc flush_threshold) rows"
      using 1 [OF True] by (simp only:)
    finally show ?thesis by (simp only: append_take_drop_id)
  next
    case False
    then show ?thesis by (simp add: split_frames_small)
  qed
qed

lemma split_frames_not_empty: "split_frames rows \<noteq> []"
  by (subst split_frames.simps) simp

lemma split_frames_sizes:
  "(\<forall>f \<in> set (butlast (split_frames rows)). length f = Suc flush_threshold)
   \<and> length (last (split_frames rows)) \<le> flush_threshold"
proof (induction rows rule: split_frames.induct)
  case (1 rows)
  show ?case
  proof (cases "length rows > flush_threshold")
    case True
    let ?rest = "split_frames (drop (Suc flush_threshold) rows)"
    from True have eq: "split_frames rows = take (Suc flush_threshold) rows # ?rest"
      by (rule split_frames_large)
    from True have len: "length (take (Suc flush_threshold) rows) = Suc flush_threshold"
      by simp
    have ne: "?rest \<noteq> []" by (rule split_frames_not_empty)
    from 1 [OF True] have ih: "\<forall>f \<in> set (butlast ?rest). length f = Suc flush_threshold"
      "length (last ?rest) \<le> flush_threshold"
      by blast+
    from ne have "butlast (take (Suc flush_threshold) rows # ?rest) =
        take (Suc flush_threshold) rows # butlast ?rest"
      and "last (take (Suc flush_threshold) rows # ?rest) = last ?rest"
      by simp_all
    with ih len show ?thesis unfolding eq by simp
  next
    case False
    then show ?thesis by (simp add: split_frames_small)
  qed
qed

lemma chunk_loop_buffer_step:
  "chunk_loop to_buffer (Inr row # rest) bldr w =
     (if length bldr \<ge> flush_threshold
      then chunk_loop to_buffer rest [] (w @ [DataFrame (bldr @ [arrow_row row])])
      else chunk_loop to_buffer rest (bldr @ [arrow_row row]) w)"
  by (simp add: Let_def to_buffer_def)

lemma chunk_loop_buffer:
  "length bldr \<le> flush_threshold \<Longrightarrow>
   \<exists>fs bldr'. chunk_loop to_buffer (map Inr rows) bldr w = Inr (bldr', w @ map DataFrame fs)
      \<and> fs @ [bldr'] = split_frames (bldr @ map arrow_row rows)"
proof (induction rows arbitrary: bldr w)
  case Nil
  then show ?case by (simp add: split_frames_small)
next
  case (Cons r rows)
  have step: "chunk_loop to_buffer (map Inr (r # rows)) bldr w =
     (if length bldr \<ge> flush_threshold
      then chunk_loop to_buffer (map Inr rows) [] (w @ [DataFrame (bldr @ [arrow_row r])])
      else chunk_loop to_buffer (map Inr rows) (bldr @ [arrow_row r]) w)"
    by (simp only: list.map chunk_loop_buffer_step)
  show ?case
  proof (cases "length bldr \<ge> flush_threshold")
    case True
    with Cons.prems have len: "length (bldr @ [arrow_row r]) = Suc flush_threshold" by simp
    have "\<exists>fs bldr'. chunk_loop to_buffer (map Inr rows) [] (w @ [DataFrame (bldr @ [arrow_row r])]) =
            Inr (bldr', (w @ [DataFrame (bldr @ [arrow_row r])]) @ map DataFrame fs)
          \<and> fs @ [bldr'] = split_frames ([] @ map arrow_row rows)"
      by (rule Cons.IH) simp
    then obtain fs bldr' where
      1: "chunk_loop to_buffer (map Inr rows) [] (w @ [DataFrame (bldr @ [arrow_row r])]) =
            Inr (bldr', (w @ [DataFrame (bldr @ [arrow_row r])]) @ map DataFrame fs)"
      and 2: "fs @ [bldr'] = split_frames ([] @ map arrow_row rows)"
      by blast
    have big: "length ((bldr @ [arrow_row r]) @ map arrow_row rows) > flush_threshold"
      using len by simp
    have "split_frames ((bldr @ [arrow_row r]) @ map arrow_row rows) =
        (bldr @ [arrow_row r]) # split_frames (map arrow_row rows)"
      unfolding split_frames_large [OF big] using len by simp
    then have 3: "split_frames (bldr @ map arrow_row (r # rows)) =
        (bldr @ [arrow_row r]) # split_frames (map arrow_row rows)"
      by simp
    have "chunk_loop to_buffer (map Inr (r # rows)) bldr w =
        Inr (bldr', w @ map DataFrame ((bldr @ [arrow_row r]) # fs))"
      unfolding step using 1 True by simp
    moreover have "((bldr @ [arrow_row r]) # fs) @ [bldr'] = split_frames (bldr @ map arrow_row (r # rows))"
      using 2 3 by simp
    ultimately show ?thesis by blast
  next
    case False
    then have "length (bldr @ [arrow_row r]) \<le> flush_threshold" by simp
    from Cons.IH [OF this, of w] False show ?thesis unfolding step by simp
  qed
qed

lemma chunk_loop_cursor:
  "chunk_loop wr cur bldr w = Inr x \<Longrightarrow> \<exists>rows. cur = map Inr rows"
proof (induction cur arbitrary: bldr w)
  case Nil
  then show ?case by simp
next
  case (Cons a cur)
  show ?case
  proof (cases a)
    case (Inl e)
    with Cons.prems show ?thesis by simp
  next
    case (Inr row)
    with Cons.prems obtain b' w' where "chunk_loop wr cur b' w' = Inr x"
      by (auto simp: Let_def split: if_splits sum.splits)
    from Cons.IH [OF this] obtain rows where "cur = map Inr rows" by blast
    with Inr have "a # cur = map Inr (row # rows)" by simp
    then show ?thesis by (rule exI)
  qed
qed

lemma writeMetadataArrow_buffer:
  assumes "fst (writeMetadataArrow ask to_buffer flt c w q d) = None"
  shows "\<exists>md ids. resolve_ids ask flt c q d = Inr ids
           \<and> scan_all scan_metadata (metadata_query ids d) = Inr md
           \<and> writeMetadataArrow ask to_buffer flt c w q d =
               (None, w @ [MetadataFrame md, EndOfStream], q\<lparr>Ids := ids\<rparr>)"
  using assms
  by (auto simp: writeMetadataArrow_def Let_def to_buffer_def split: sum.splits if_splits)

lemma data_rows_append [simp]: "data_rows (a @ b) = data_rows a @ data_rows b"
  by (simp add: data_rows_def)

lemma data_rows_frames [simp]: "data_rows (map DataFrame fs) = concat fs"
  by (induction fs) (simp_all add: data_rows_def)

lemma data_rows_other [simp]:
  "data_rows [MetadataFrame md] = []" "data_rows [EndOfStream] = []" "data_rows [] = []"
  "data_rows (MetadataFrame md # w) = data_rows w" "data_rows (EndOfStream # w) = data_rows w"
  by (simp_all add: data_rows_def)

lemma ReadDataChunk_buffer:
  assumes ok: "fst (ReadDataChunk ask aggregate to_buffer flt c w q d) = None"
  shows "\<exists>md rows q'.
           ReadDataChunk ask aggregate to_buffer flt c w q d =
             (None,
              w @ [MetadataFrame md, EndOfStream] @ map DataFrame (split_frames (map arrow_row rows))
                @ [EndOfStream],
              q')
           \<and> run_data_query aggregate q' d = Inr (map Inr rows)"
proof -
  obtain e1 w1 q1 where m: "writeMetadataArrow ask to_buffer flt c w q d = (e1, w1, q1)"
    by (cases "writeMetadataArrow ask to_buffer flt c w q d") auto
  from ok m have e1: "e1 = None"
    by (auto simp: ReadDataChunk_def split: option.splits)
  with m have "fst (writeMetadataArrow ask to_buffer flt c w q d) = None" by simp
  from writeMetadataArrow_buffer [OF this] m obtain md where
    w1: "w1 = w @ [MetadataFrame md, EndOfStream]" by auto
  from ok m e1 obtain cur where
    cur: "\<not> flt DataQuery" "run_data_query aggregate q1 d = Inr cur"
    by (auto simp: ReadDataChunk_def split: sum.splits if_splits)
  from ok m e1 cur obtain bldr w2 where
    loop: "chunk_loop to_buffer cur [] w1 = Inr (bldr, w2)"
    by (auto simp: ReadDataChunk_def split: sum.splits prod.splits)
  from chunk_loop_cursor [OF loop] obtain rows where rows: "cur = map Inr rows" by blast
  have "\<exists>fs bldr'. chunk_loop to_buffer (map Inr rows) [] w1 = Inr (bldr', w1 @ map DataFrame fs)
      \<and> fs @ [bldr'] = split_frames ([] @ map arrow_row rows)"
    by (rule chunk_loop_buffer) simp
  with loop rows obtain fs where
    fs: "w2 = w1 @ map DataFrame fs" "fs @ [bldr] = split_frames (map arrow_row rows)"
    by auto
  have "map DataFrame fs @ [DataFrame bldr] = map DataFrame (fs @ [bldr])" by simp
  with fs have frames: "w2 @ [DataFrame bldr] = w1 @ map DataFrame (split_frames (map arrow_row rows))"
    by (simp del: map_append)
  have "ReadDataChunk ask aggregate to_buffer flt c w q d =
      (None, (w2 @ [DataFrame bldr]) @ [EndOfStream], q1)"
    using m e1 cur loop by (simp add: ReadDataChunk_def to_buffer_def)
  with frames w1 cur rows show ?thesis by simp
qed

lemma chunk_loop_below_threshold:
  assumes "n \<le> flush_threshold"
  shows "chunk_loop to_buffer (map Inr (replicate n r)) [] w = Inr (replicate n (arrow_row r), w)"
proof -
  have "\<exists>fs bldr'. chunk_loop to_buffer (map Inr (replicate n r)) [] w = Inr (bldr', w @ map DataFrame fs)
        \<and> fs @ [bldr'] = split_frames ([] @ map arrow_row (replicate n r))"
    by (rule chunk_loop_buffer) simp
  moreover have "split_frames ([] @ map arrow_row (replicate n r)) = [replicate n (arrow_row r)]"
    using assms by (simp add: split_frames_small)
  ultimately show ?thesis by auto
qed

lemma chunk_loop_above_threshold:
  "chunk_loop to_buffer (map Inr (replicate (Suc flush_threshold) r)) [] w =
     Inr ([], w @ [DataFrame (replicate (Suc flush_threshold) (arrow_row r))])"
proof -
  let ?n = "Suc flush_threshold"
  have "\<exists>fs bldr'. chunk_loop to_buffer (map Inr (replicate ?n r)) [] w = Inr (bldr', w @ map DataFrame fs)
        \<and> fs @ [bldr'] = split_frames ([] @ map arrow_row (replicate ?n r))"
    by (rule chunk_loop_buffer) simp
  moreover have "split_frames (replicate ?n (arrow_row r)) =
      take ?n (replicate ?n (arrow_row r)) # split_frames (drop ?n (replicate ?n (arrow_row r)))"
    by (rule split_frames_large) simp
  then have "split_frames ([] @ map arrow_row (replicate ?n r)) = [replicate ?n (arrow_row r), []]"
    by (simp add: split_frames_small)
  ultimately show ?thesis by (auto simp: append_eq_Cons_conv)
qed

lemmas export_defs =
  ReadDataChunk_def writeMetadataArrow_def resolve_ids_def QuerySparql_def select_ids_def
  name_or_uri_in_def uri_bindings_def metadata_query_def scan_metadata_def run_data_query_def
  unified_def in_range_def rfc3339_def label_def arrow_row_def UnixNano_def to_buffer_def
  flush_threshold_def Let_def

lemmas export_examples =
  store3_def store0_def ask1_def no_aggregates_def by_ids_def by_sparql_def no_faults_def
  alice_def mallory_def

lemma ReadDataChunk_by_ids:
  "ReadDataChunk ask1 no_aggregates to_buffer no_faults c [] (by_ids [1]) store3 =
     (None,
      [MetadataFrame [(''https://brickschema.org/schema/Brick#Temperature_Sensor'',
                       ''urn:bldg1#temp1'', ''F'', ''temp1'', 1)],
       EndOfStream,
       DataFrame [(1000000000, 701, ''urn:bldg1#temp1''), (2000000000, 710, ''urn:bldg1#temp1'')],
       EndOfStream],
      by_ids [1])"
  by (simp add: export_defs export_examples)

text \<open>
  Claim C3.  The rows are flushed into a new data frame once the threshold of 2000000
  rows is reached, then the remainder (which may be empty) is flushed; the rows of all
  data frames, in order, are the rows of the query.

  As stated the first part fails: the source compares with \<^verbatim>\<open>>\<close>.  After 2000000
  rows nothing has been written and the builder holds them all; the frame written
  during the loop is the one of 2000001 rows.
\<close>

theorem chunk_loop_threshold_counterexample:
  "chunk_loop to_buffer (map Inr (replicate 2000000 (0, 0 :: int, []))) [] [] =
     Inr (replicate 2000000 (0, 0, []), [])
   \<and> chunk_loop to_buffer (map Inr (replicate 2000001 (0, 0 :: int, []))) [] [] =
     Inr ([], [DataFrame (replicate 2000001 (0, 0, []))])"
proof -
  have a: "arrow_row (0, 0 :: int, []) = (0, 0, [])"
    by (simp add: arrow_row_def UnixNano_def)
  have n: "(2000000 :: nat) \<le> flush_threshold" "Suc flush_threshold = 2000001"
    by (simp_all add: flush_threshold_def)
  from chunk_loop_below_threshold [OF n(1), of "(0, 0 :: int, [])" "[]"]
    chunk_loop_above_threshold [of "(0, 0 :: int, [])" "[]"]
  show ?thesis
    unfolding a n(2) by (simp only: append_Nil simp_thms)
qed

text \<open>
  Claim C3, amended.  The threshold is 2000000 rows, and a frame is written once the
  builder holds more than that.  For every call of \<^verbatim>\<open>ReadDataChunk\<close> that succeeds,
  on an output that keeps what is written: what is written is the metadata frame and its
  end marker, then the data frames \<open>split_frames\<close> makes of the rows of the data query
  (run with the resolved ids), then the end marker; so the rows of all data frames, in
  order, are exactly the rows of the query.  Whatever the rows, the frames of
  \<open>split_frames\<close> concatenate to them, each frame but the last has 2000001 rows, and the
  last, which is always written, has at most 2000000 rows and may be empty.
\<close>

theorem ReadDataChunk_frames:
  "flush_threshold = 2000000
   \<and> (fst (ReadDataChunk ask aggregate to_buffer flt c w q d) = None \<longrightarrow>
        (\<exists>md rows q'.
           ReadDataChunk ask aggregate to_buffer flt c w q d =
             (None,
              w @ [MetadataFrame md, EndOfStream] @ map DataFrame (split_frames (map arrow_row rows))
                @ [EndOfStream],
              q')
           \<and> run_data_query aggregate q' d = Inr (map Inr rows)
           \<and> data_rows (fst (snd (ReadDataChunk ask aggregate to_buffer flt c w q d))) =
               data_rows w @ map arrow_row rows))
   \<and> concat (split_frames xs) = xs
   \<and> (\<forall>f \<in> set (butlast (split_frames xs)). length f = flush_threshold + 1)
   \<and> length (last (split_frames xs)) \<le> flush_threshold
   \<and> split_frames xs \<noteq> []"
proof (intro conjI impI)
  show "flush_threshold = 2000000" by (simp add: flush_threshold_def)
next
  assume "fst (ReadDataChunk ask aggregate to_buffer flt c w q d) = None"
  from ReadDataChunk_buffer [OF this] obtain md rows q' where
    r: "ReadDataChunk ask aggregate to_buffer flt c w q d =
             (None,
              w @ [MetadataFrame md, EndOfStream] @ map DataFrame (split_frames (map arrow_row rows))
                @ [EndOfStream],
              q')"
    and q: "run_data_query aggregate q' d = Inr (map Inr rows)"
    by blast
  have "data_rows (fst (snd (ReadDataChunk ask aggregate to_buffer flt c w q d))) =
      data_rows w @ map arrow_row rows"
    unfolding r by (simp add: concat_split_frames)
  with r q show "\<exists>md rows q'.
           ReadDataChunk ask aggregate to_buffer flt c w q d =
             (None,
              w @ [MetadataFrame md, EndOfStream] @ map DataFrame (split_frames (map arrow_row rows))
                @ [EndOfStream],
              q')
           \<and> run_data_query aggregate q' d = Inr (map Inr rows)
           \<and> data_rows (fst (snd (ReadDataChunk ask aggregate to_buffer flt c w q d))) =
               data_rows w @ map arrow_row rows"
    by blast
next
  show "concat (split_frames xs) = xs" by (rule concat_split_frames)
next
  from split_frames_sizes [of xs]
  show "\<forall>f \<in> set (butlast (split_frames xs)). length f = flush_threshold + 1" by simp
next
  from split_frames_sizes [of xs]
  show "length (last (split_frames xs)) \<le> flush_threshold" by simp
next
  show "split_frames xs \<noteq> []" by (rule split_frames_not_empty)
qed

text \<open>The theorem for the export of stream 1 of \<open>store3\<close>, and for a request with no ids.\<close>

theorem ReadDataChunk_frames_witness:
  "fst (ReadDataChunk ask1 no_aggregates to_buffer no_faults alice [] (by_ids [1]) store3) = None
   \<and> data_rows (fst (snd (ReadDataChunk ask1 no_aggregates to_buffer no_faults alice []
                            (by_ids [1]) store3))) =
       map arrow_row [(1000000, 701, ''urn:bldg1#temp1''), (2000000, 710, ''urn:bldg1#temp1'')]
   \<and> run_data_query no_aggregates (by_ids [1]) store3 =
       Inr (map Inr [(1000000, 701, ''urn:bldg1#temp1''), (2000000, 710, ''urn:bldg1#temp1'')])
   \<and> split_frames ([] :: int list) = [[]]"
proof -
  have ok: "fst (ReadDataChunk ask1 no_aggregates to_buffer no_faults alice [] (by_ids [1]) store3) = None"
    by (simp add: ReadDataChunk_by_ids)
  have q: "run_data_query no_aggregates (by_ids [1]) store3 =
       Inr (map Inr [(1000000, 701, ''urn:bldg1#temp1''), (2000000, 710, ''urn:bldg1#temp1'')])"
    by (simp add: export_defs export_examples)
  from ReadDataChunk_frames [of ask1 no_aggregates no_faults alice "[]" "by_ids [1]" store3
      "[] :: int list"] ok
  obtain md rows q' where
    r: "ReadDataChunk ask1 no_aggregates to_buffer no_faults alice [] (by_ids [1]) store3 =
             (None,
              [] @ [MetadataFrame md, EndOfStream] @ map DataFrame (split_frames (map arrow_row rows))
                @ [EndOfStream],
              q')"
    and q': "run_data_query no_aggregates q' store3 = Inr (map Inr rows)"
    and dr: "data_rows (fst (snd (ReadDataChunk ask1 no_aggregates to_buffer no_faults alice []
                            (by_ids [1]) store3))) = data_rows [] @ map arrow_row rows"
    and e: "length (last (split_frames ([] :: int list))) \<le> flush_threshold"
      "concat (split_frames ([] :: int list)) = []" "split_frames ([] :: int list) \<noteq> []"
    by blast
  from r have "q' = by_ids [1]" by (simp add: ReadDataChunk_by_ids)
  with q q' have "map Inr rows =
      (map Inr [(1000000, 701, ''urn:bldg1#temp1''), (2000000, 710, ''urn:bldg1#temp1'')]
        :: (cause + int \<times> int \<times> string) list)"
    by simp
  then have "rows = [(1000000, 701, ''urn:bldg1#temp1''), (2000000, 710, ''urn:bldg1#temp1'')]"
    by (simp add: map_eq_Cons_conv)
  with dr have d: "data_rows (fst (snd (ReadDataChunk ask1 no_aggregates to_buffer no_faults alice []
                            (by_ids [1]) store3))) =
       map arrow_row [(1000000, 701, ''urn:bldg1#temp1''), (2000000, 710, ''urn:bldg1#temp1'')]"
    by simp
  have "split_frames ([] :: int list) = [[]]"
    by (rule split_frames_small) simp
  with ok d q show ?thesis by simp
qed

text \<open>
  Claim C4.  The resolution of the ids takes one path by priority, and with a query text
  the ids should come only from the streams matching the URIs bound in its result (with
  explicit URIs, only from those); else the explicit ids are used; no input gives no ids
  and no error.

  As stated the word ``only'' fails: both branches append to the ids the request came
  with.  With a query text and the explicit id 5, which no stream has, the resolved ids
  are 5 and the one id the result matches.
\<close>

theorem resolve_ids_counterexample:
  "resolve_ids ask1 no_faults alice (by_sparql [5]) store3 = Inr [5, 1]
   \<and> select_ids (uri_bindings [[(''s'', \<lparr>b_type = ''uri'', b_value = ''urn:bldg1#temp1''\<rparr>)]])
        [] store3 = [1]"
  by (simp add: export_defs export_examples)

text \<open>
  Claim C4, amended.  With a query text, the ids of the streams whose name or
  \<open>brick_uri\<close> is among the values of the URI-typed bindings of the result, with a source
  among the explicit sources when there are any, are appended to the explicit ids, and
  the explicit URIs are not used; with no query text but explicit URIs, the ids of the
  streams matching those are appended to the explicit ids; else the explicit ids are used
  as they are, so that no input at all gives no ids, not an error.  The resolved ids are
  what \<^verbatim>\<open>q.Ids\<close> holds after \<^verbatim>\<open>writeMetadataArrow\<close>.
\<close>

theorem resolve_ids_by_priority:
  "(Sparql q \<noteq> [] \<and> ask ''default'' (Sparql q) = Inr res \<and> \<not> flt IdQuery \<longrightarrow>
      resolve_ids ask flt c q d = Inr (Ids q @ select_ids (uri_bindings res) (Sources q) d))
   \<and> (Sparql q = [] \<and> Uris q \<noteq> [] \<and> \<not> flt IdQuery \<longrightarrow>
      resolve_ids ask flt c q d = Inr (Ids q @ select_ids (Uris q) (Sources q) d))
   \<and> (Sparql q = [] \<and> Uris q = [] \<longrightarrow> resolve_ids ask flt c q d = Inr (Ids q))
   \<and> set (uri_bindings res) =
       {b_value b |b. \<exists>row \<in> set res. \<exists>var. (var, b) \<in> set row \<and> b_type b = ''uri''}
   \<and> set (select_ids uris sources d) =
       {st_id r |r. r \<in> set (streams d)
          \<and> (st_name r \<in> set uris \<or> (\<exists>u \<in> set uris. st_brick_uri r = Some u))
          \<and> (sources = [] \<or> st_source r \<in> set sources)}
   \<and> (resolve_ids ask flt c q d = Inr ids \<longrightarrow>
        snd (snd (writeMetadataArrow ask wr flt c w q d)) = q\<lparr>Ids := ids\<rparr>)"
proof (intro conjI impI)
  assume "Sparql q \<noteq> [] \<and> ask ''default'' (Sparql q) = Inr res \<and> \<not> flt IdQuery"
  then show "resolve_ids ask flt c q d = Inr (Ids q @ select_ids (uri_bindings res) (Sources q) d)"
    by (simp add: resolve_ids_def QuerySparql_def)
next
  assume "Sparql q = [] \<and> Uris q \<noteq> [] \<and> \<not> flt IdQuery"
  then show "resolve_ids ask flt c q d = Inr (Ids q @ select_ids (Uris q) (Sources q) d)"
    by (simp add: resolve_ids_def)
next
  assume "Sparql q = [] \<and> Uris q = []"
  then show "resolve_ids ask flt c q d = Inr (Ids q)"
    by (simp add: resolve_ids_def)
next
  show "set (uri_bindings res) =
       {b_value b |b. \<exists>row \<in> set res. \<exists>var. (var, b) \<in> set row \<and> b_type b = ''uri''}"
    by (force simp: uri_bindings_def)
next
  have "name_or_uri_in uris r \<longleftrightarrow>
      st_name r \<in> set uris \<or> (\<exists>u \<in> set uris. st_brick_uri r = Some u)" for r
    by (auto simp: name_or_uri_in_def split: option.splits)
  then show "set (select_ids uris sources d) =
       {st_id r |r. r \<in> set (streams d)
          \<and> (st_name r \<in> set uris \<or> (\<exists>u \<in> set uris. st_brick_uri r = Some u))
          \<and> (sources = [] \<or> st_source r \<in> set sources)}"
    by (auto simp: select_ids_def)
next
  assume "resolve_ids ask flt c q d = Inr ids"
  then show "snd (snd (writeMetadataArrow ask wr flt c w q d)) = q\<lparr>Ids := ids\<rparr>"
    by (simp add: writeMetadataArrow_def Let_def split: sum.splits)
qed

text \<open>The theorem for a request with a query text and no ids, and for one with no input.\<close>

theorem resolve_ids_by_priority_witness:
  "resolve_ids ask1 no_faults alice (by_sparql []) store3 = Inr [1]
   \<and> resolve_ids ask1 no_faults alice (by_ids []) store3 = Inr []
   \<and> ReadDataChunk ask1 no_aggregates to_buffer no_faults alice [] (by_ids []) store3 =
       (None, [MetadataFrame [], EndOfStream, DataFrame [], EndOfStream], by_ids [])"
proof -
  have h1: "Sparql (by_sparql []) \<noteq> []
      \<and> ask1 ''default'' (Sparql (by_sparql [] :: unit Query)) =
          Inr [[(''s'', \<lparr>b_type = ''uri'', b_value = ''urn:bldg1#temp1''\<rparr>)]]
      \<and> \<not> no_faults IdQuery"
    by (simp add: export_examples)
  have "resolve_ids ask1 no_faults alice (by_sparql []) store3 =
      Inr (Ids (by_sparql [] :: unit Query) @
           select_ids (uri_bindings [[(''s'', \<lparr>b_type = ''uri'', b_value = ''urn:bldg1#temp1''\<rparr>)]])
             (Sources (by_sparql [] :: unit Query)) store3)"
    by (rule resolve_ids_by_priority [where ask = ask1 and q = "by_sparql []" and flt = no_faults,
          THEN conjunct1, rule_format, OF h1])
  then have 1: "resolve_ids ask1 no_faults alice (by_sparql []) store3 = Inr [1]"
    by (simp add: select_ids_def name_or_uri_in_def uri_bindings_def export_examples)
  have h2: "Sparql (by_ids [] :: unit Query) = [] \<and> Uris (by_ids [] :: unit Query) = []"
    by (simp add: by_ids_def)
  have "resolve_ids ask1 no_faults alice (by_ids []) store3 = Inr (Ids (by_ids [] :: unit Query))"
    by (rule resolve_ids_by_priority [where ask = ask1 and q = "by_ids []" and flt = no_faults,
          THEN conjunct2, THEN conjunct2, THEN conjunct1, rule_format, OF h2])
  then have 2: "resolve_ids ask1 no_faults alice (by_ids []) store3 = Inr []"
    by (simp add: by_ids_def)
  have "ReadDataChunk ask1 no_aggregates to_buffer no_faults alice [] (by_ids []) store3 =
       (None, [MetadataFrame [], EndOfStream, DataFrame [], EndOfStream], by_ids [])"
    by (simp add: export_defs export_examples)
  with 1 2 show ?thesis by simp
qed

text \<open>
  Claim C9.  \<^verbatim>\<open>ReadDataChunk\<close> performs no authorization check: the exported stream
  and the success or failure of the call do not depend on the identity in the context.
  Two runs that differ only in the context return the same error, write the same output
  and leave the same request.
\<close>

theorem ReadDataChunk_ignores_identity:
  "ReadDataChunk ask aggregate wr flt c1 w q d = ReadDataChunk ask aggregate wr flt c2 w q d"
  by (simp add: ReadDataChunk_def writeMetadataArrow_def resolve_ids_def QuerySparql_def)

text \<open>
  For the identity with a grant, the identity without one and a context with no identity,
  on \<open>store3\<close>; the write path tells the first two apart.
\<close>

theorem ReadDataChunk_ignores_identity_witness:
  "ReadDataChunk ask1 no_aggregates to_buffer no_faults mallory [] (by_ids [1]) store3 =
     ReadDataChunk ask1 no_aggregates to_buffer no_faults alice [] (by_ids [1]) store3
   \<and> ReadDataChunk ask1 no_aggregates to_buffer no_faults \<lparr>user = None\<rparr> [] (by_ids [1]) store3 =
     ReadDataChunk ask1 no_aggregates to_buffer no_faults alice [] (by_ids [1]) store3
   \<and> fst (ReadDataChunk ask1 no_aggregates to_buffer no_faults mallory [] (by_ids [1]) store3) = None
   \<and> fst (InsertHistoricalData accept no_faults mallory readings1 store3) \<noteq>
     fst (InsertHistoricalData accept no_faults alice readings1 store3)"
proof -
  note ReadDataChunk_ignores_identity [of ask1 no_aggregates to_buffer no_faults _ "[]" "by_ids [1]" store3 alice]
  moreover have "fst (ReadDataChunk ask1 no_aggregates to_buffer no_faults mallory [] (by_ids [1]) store3) = None"
    by (simp add: ReadDataChunk_by_ids)
  moreover have "fst (InsertHistoricalData accept no_faults mallory readings1 store3) \<noteq>
     fst (InsertHistoricalData accept no_faults alice readings1 store3)"
    by (simp add: InsertHistoricalData_def checkAuth_def count_authorizations_def example_defs
        readings1_def store3_def RunAsTransaction_def insert_txn_def select_stream_id_def
        same_stream_def staged_readings_def data_key_def upsert_reading_def Let_def)
  ultimately show ?thesis by simp
qed

section \<open>Properties of Qualify\<close>

lemma record_result_ok:
  assumes "well_formed n m" "queryIdx res < n"
  shows "\<exists>m'. record_result n res m = Some m' \<and> well_formed n m'
          \<and> dom m' = insert (graph res) (dom m)
          \<and> (\<forall>g i. i < n \<longrightarrow>
                (case m' g of None \<Rightarrow> 0 | Some cs \<Rightarrow> cs ! i) =
                (if g = graph res \<and> i = queryIdx res then numSolutions res
                 else (case m g of None \<Rightarrow> 0 | Some cs \<Rightarrow> cs ! i)))"
proof (cases "m (graph res)")
  case None
  with assms show ?thesis
    by (auto simp: record_result_def well_formed_def Let_def nth_list_update)
next
  case (Some cs)
  with assms have "length cs = n" by (simp add: well_formed_def)
  with Some assms show ?thesis
    by (auto simp: record_result_def well_formed_def Let_def nth_list_update)
qed

lemma reported_Cons:
  "reported (r # rs) g i =
     (if results_for rs g i = []
      then (if graph r = g \<and> queryIdx r = i then numSolutions r else 0)
      else reported rs g i)"
  by (auto simp: reported_def results_for_def split: list.splits)

lemma results_for_Cons:
  "results_for (r # rs) g i = [] \<longleftrightarrow> \<not> (graph r = g \<and> queryIdx r = i) \<and> results_for rs g i = []"
  by (simp add: results_for_def)

lemma drain_ok:
  assumes "well_formed n m" "\<forall>res \<in> set rs. queryIdx res < n"
  shows "\<exists>m'. drain n rs m = Some m' \<and> well_formed n m'
          \<and> dom m' = dom m \<union> graph ` set rs
          \<and> (\<forall>g i. i < n \<longrightarrow>
                (case m' g of None \<Rightarrow> 0 | Some cs \<Rightarrow> cs ! i) =
                (if results_for rs g i = []
                 then (case m g of None \<Rightarrow> 0 | Some cs \<Rightarrow> cs ! i)
                 else reported rs g i))"
  using assms
proof (induction rs arbitrary: m)
  case Nil
  then show ?case by (simp add: results_for_def)
next
  case (Cons r rs)
  from Cons.prems have "queryIdx r < n" by simp
  from record_result_ok [OF Cons.prems(1) this] obtain m1 where
    m1: "record_result n r m = Some m1" "well_formed n m1" "dom m1 = insert (graph r) (dom m)"
    and v1: "\<And>g i. i < n \<Longrightarrow> (case m1 g of None \<Rightarrow> 0 | Some cs \<Rightarrow> cs ! i) =
                (if g = graph r \<and> i = queryIdx r then numSolutions r
                 else (case m g of None \<Rightarrow> 0 | Some cs \<Rightarrow> cs ! i))"
    by blast
  from Cons.prems have "\<forall>res \<in> set rs. queryIdx res < n" by simp
  from Cons.IH [OF m1(2) this] obtain m' where
    m': "drain n rs m1 = Some m'" "well_formed n m'" "dom m' = dom m1 \<union> graph ` set rs"
    and v': "\<And>g i. i < n \<Longrightarrow> (case m' g of None \<Rightarrow> 0 | Some cs \<Rightarrow> cs ! i) =
                (if results_for rs g i = []
                 then (case m1 g of None \<Rightarrow> 0 | Some cs \<Rightarrow> cs ! i)
                 else reported rs g i)"
    by blast
  have "(case m' g of None \<Rightarrow> 0 | Some cs \<Rightarrow> cs ! i) =
                (if results_for (r # rs) g i = []
                 then (case m g of None \<Rightarrow> 0 | Some cs \<Rightarrow> cs ! i)
                 else reported (r # rs) g i)" if "i < n" for g i
    using v' [OF that] v1 [OF that] by (auto simp: reported_Cons results_for_Cons)
  with m1 m' show ?case by auto
qed

lemma drain_append:
  "drain n (rs @ rs') m = (case drain n rs m of None \<Rightarrow> None | Some m' \<Rightarrow> drain n rs' m')"
  by (induction rs arbitrary: m) (auto split: option.splits)

lemma well_formed_empty [simp]: "well_formed n Map.empty"
  by (simp add: well_formed_def)

text \<open>The map the loop builds from nothing.\<close>

lemma drain_empty:
  assumes "\<forall>res \<in> set rs. queryIdx res < n"
  shows "\<exists>m. drain n rs Map.empty = Some m
          \<and> dom m = graph ` set rs
          \<and> (\<forall>g cs. m g = Some cs \<longrightarrow> length cs = n \<and> (\<forall>i < n. cs ! i = reported rs g i))"
proof -
  from drain_ok [OF well_formed_empty assms] obtain m where
    m: "drain n rs Map.empty = Some m" "well_formed n m" "dom m = graph ` set rs"
    and v: "\<And>g i. i < n \<Longrightarrow> (case m g of None \<Rightarrow> 0 | Some cs \<Rightarrow> cs ! i) =
                (if results_for rs g i = [] then 0 else reported rs g i)"
    by auto
  have "cs ! i = reported rs g i" if "m g = Some cs" "i < n" for g cs i
    using v [OF that(2), of g] that(1) by (simp add: reported_def)
  with m show ?thesis by (auto simp: well_formed_def)
qed

text \<open>A result with count 0 for a job without result, in a graph that has one, changes nothing.\<close>

lemma drain_zero_result:
  assumes "drain n rs Map.empty = Some m" "\<forall>res \<in> set rs. queryIdx res < n"
    and "g \<in> dom m" "i < n" "results_for rs g i = []"
  shows "drain n (rs @ [\<lparr>graph = g, queryIdx = i, numSolutions = 0\<rparr>]) Map.empty = Some m"
proof -
  from drain_empty [OF assms(2)] assms(1) have
    len: "\<And>g cs. m g = Some cs \<Longrightarrow> length cs = n"
    and v: "\<And>g cs i. m g = Some cs \<Longrightarrow> i < n \<Longrightarrow> cs ! i = reported rs g i"
    by auto
  from assms(3) obtain cs where cs: "m g = Some cs" by auto
  with v assms(4,5) have "cs ! i = 0" by (simp add: reported_def)
  then have "cs[i := 0] = cs" by (metis list_update_id)
  with cs len [OF cs] assms(4) have
    "record_result n \<lparr>graph = g, queryIdx = i, numSolutions = 0\<rparr> m = Some m"
    by (simp add: record_result_def map_upd_triv)
  with assms(1) show ?thesis by (simp add: drain_append)
qed

lemma run_workers_done: "live p = [] \<Longrightarrow> run_workers ask c qs sched p = p"
  by (subst run_workers.simps) simp

lemma run_workers_step:
  "live p \<noteq> [] \<Longrightarrow>
   run_workers ask c qs sched p =
     run_workers ask c qs (tl sched) (worker_step ask c qs (next_worker sched p) p)"
  by (subst run_workers.simps) simp

lemma run_workers_invariant:
  assumes "P p" and "\<And>p i. P p \<Longrightarrow> i \<in> set (live p) \<Longrightarrow> P (worker_step ask c qs i p)"
  shows "P (run_workers ask c qs sched p)"
  using assms(1)
proof (induction "remaining p" arbitrary: p sched rule: less_induct)
  case less
  show ?case
  proof (cases "live p = []")
    case True
    with less.prems show ?thesis by (simp add: run_workers_done)
  next
    case False
    let ?p' = "worker_step ask c qs (next_worker sched p) p"
    from False have l: "next_worker sched p \<in> set (live p)" by (rule next_worker_live)
    then have "remaining ?p' < remaining p" by (rule worker_step_remaining)
    moreover from less.prems l have "P ?p'" by (rule assms(2))
    ultimately have "P (run_workers ask c qs (tl sched) ?p')" by (rule less.hyps)
    with False show ?thesis by (simp add: run_workers_step)
  qed
qed

lemma run_workers_all_exited: "live (run_workers ask c qs sched p) = []"
proof (induction "remaining p" arbitrary: p sched rule: less_induct)
  case less
  show ?case
  proof (cases "live p = []")
    case True
    then show ?thesis by (simp add: run_workers_done)
  next
    case False
    let ?p' = "worker_step ask c qs (next_worker sched p) p"
    from False have "next_worker sched p \<in> set (live p)" by (rule next_worker_live)
    then have "remaining ?p' < remaining p" by (rule worker_step_remaining)
    then have "live (run_workers ask c qs (tl sched) ?p') = []" by (rule less.hyps)
    with False show ?thesis by (simp add: run_workers_step)
  qed
qed

lemma in_range_pool_step:
  assumes "in_range_pool (length qs) p" "i \<in> set (live p)"
  shows "in_range_pool (length qs) (worker_step ask c qs i p)"
proof -
  from assms(2) have i: "i < length (workers p)" by (simp add: live_iff)
  have upd: "Querying t \<in> set ((workers p)[i := w]) \<Longrightarrow> Querying t = w \<or> Querying t \<in> set (workers p)" for t w
    using set_update_subset_insert [of "workers p" i w] by auto
  show ?thesis
  proof (cases "workers p ! i")
    case Receiving
    with assms(1) show ?thesis
      by (auto simp: worker_step_def in_range_pool_def dest!: upd split: list.splits)
  next
    case (Querying task)
    with i have "Querying task \<in> set (workers p)" by (metis nth_mem)
    with assms(1) have "queryIdx task < length qs" by (simp add: in_range_pool_def)
    with Querying assms(1) show ?thesis
      by (auto simp: worker_step_def in_range_pool_def dest!: upd split: sum.splits)
  next
    case Exited
    with assms(1) show ?thesis by (simp add: worker_step_def)
  qed
qed

lemma in_range_pool_start: "in_range_pool (length qs) (start (jobs qs gs))"
  by (auto simp: in_range_pool_def start_def jobs_def)

lemma in_range_pool_run:
  "in_range_pool (length qs) (run_workers ask c qs sched (start (jobs qs gs)))"
  by (rule run_workers_invariant [where P = "in_range_pool (length qs)"])
     (simp_all add: in_range_pool_start in_range_pool_step)

lemma Qualify_returns:
  assumes "\<not> flt GraphsQuery"
  shows "\<exists>m. drain (length qs) (completed ask c qs sched d) Map.empty = Some m
          \<and> Qualify ask flt sched done_first c qs d =
              Some (m, case errors (run_workers ask c qs sched
                                     (start (jobs qs (remdups (map t_source (triples d)))))) of
                         [] \<Rightarrow> None
                       | e # _ \<Rightarrow> if done_first then None else Some e)"
proof -
  let ?p = "run_workers ask c qs sched (start (jobs qs (remdups (map t_source (triples d)))))"
  have r: "in_range_pool (length qs) ?p" by (rule in_range_pool_run)
  then have "\<forall>res \<in> set (results ?p). queryIdx res < length qs"
    by (simp add: in_range_pool_def)
  from drain_empty [OF this] obtain m where
    "drain (length qs) (results ?p) Map.empty = Some m" by blast
  with r assms show ?thesis
    by (simp add: Qualify_def graphs_def completed_def in_range_pool_def Let_def)
qed

subsection \<open>What the pool keeps\<close>

lemma exited_update:
  "i < length ws \<Longrightarrow> ws ! i \<noteq> Exited \<Longrightarrow>
   count (mset (ws[i := w])) Exited = count (mset ws) Exited + (if w = Exited then 1 else 0)"
  by (simp add: mset_update)

lemma all_exited:
  assumes "live p = []"
  shows "count (mset (workers p)) Exited = length (workers p)"
proof -
  from assms have "\<forall>i < length (workers p). workers p ! i = Exited"
    by (simp add: live_def filter_empty_conv)
  then have "\<forall>w \<in> set (workers p). w = Exited"
    by (simp add: all_set_conv_all_nth)
  then have "filter ((=) Exited) (workers p) = workers p"
    by (auto simp: filter_id_conv)
  then show ?thesis
    by (simp add: count_mset count_list_eq_length_filter)
qed

lemma stays_in_update:
  assumes "x \<in> set ws" "ws ! i \<noteq> x"
  shows "x \<in> set (ws[i := w])"
proof -
  from assms(1) obtain j where j: "j < length ws" "ws ! j = x"
    by (auto simp: in_set_conv_nth)
  with assms(2) have "j \<noteq> i" by blast
  with j have "ws[i := w] ! j = x" "j < length (ws[i := w])" by simp_all
  then show ?thesis by (metis nth_mem)
qed

lemma queue_served_step:
  assumes "in_range_pool (length qs) p" "queue_served p" "i \<in> set (live p)"
  shows "queue_served (worker_step ask c qs i p)"
proof -
  from assms(3) have i: "i < length (workers p)" and ne: "workers p ! i \<noteq> Exited"
    by (simp_all add: live_iff)
  have same: "count (mset ((workers p)[i := w])) Exited = count (mset (workers p)) Exited"
    if "w \<noteq> Exited" for w
    using exited_update [OF i ne, of w] that by simp
  have more: "count (mset ((workers p)[i := Exited])) Exited = count (mset (workers p)) Exited + 1"
    using exited_update [OF i ne, of Exited] by simp
  show ?thesis
  proof (cases "workers p ! i")
    case Receiving
    show ?thesis
    proof (cases "tasks p")
      case Nil
      with Receiving show ?thesis
        by (simp add: worker_step_def queue_served_def)
    next
      case (Cons task rest)
      with Receiving assms(2) show ?thesis
        by (simp add: worker_step_def queue_served_def same)
    qed
  next
    case (Querying task)
    with i have "Querying task \<in> set (workers p)" by (metis nth_mem)
    with assms(1) have r: "queryIdx task < length qs" by (simp add: in_range_pool_def)
    show ?thesis
    proof (cases "QuerySparql ask c (graph task) (qs ! queryIdx task)")
      case (Inl e)
      with Querying r assms(2) show ?thesis
        by (simp add: worker_step_def queue_served_def more)
    next
      case (Inr res)
      with Querying r assms(2) show ?thesis
        by (simp add: worker_step_def queue_served_def same)
    qed
  next
    case Exited
    with ne show ?thesis by simp
  qed
qed


lemma worker_step_length [simp]: "length (workers (worker_step ask c qs i p)) = length (workers p)"
  by (simp add: worker_step_def split: worker.splits list.splits sum.splits)

lemma results_sound_step:
  assumes "results_sound ask c qs p"
  shows "results_sound ask c qs (worker_step ask c qs i p)"
proof (cases "workers p ! i")
  case Receiving
  with assms show ?thesis
    by (simp add: worker_step_def results_sound_def split: list.splits)
next
  case (Querying task)
  with assms show ?thesis
    by (simp add: worker_step_def results_sound_def split: sum.splits)
next
  case Exited
  with assms show ?thesis by (simp add: worker_step_def)
qed

lemma jobs_kept_step:
  assumes "in_range_pool (length qs) p" "jobs_kept ask c qs js p" "i \<in> set (live p)"
  shows "jobs_kept ask c qs js (worker_step ask c qs i p)"
  unfolding jobs_kept_def
proof (intro ballI impI)
  fix t
  assume t: "t \<in> set js" and a: "\<exists>res. QuerySparql ask c (graph t) (qs ! queryIdx t) = Inr res"
  let ?p' = "worker_step ask c qs i p"
  from assms(3) have i: "i < length (workers p)" by (simp add: live_iff)
  from assms(2) t a consider
      (queued) "t \<in> set (tasks p)"
    | (running) "Querying t \<in> set (workers p)"
    | (sent) "\<exists>r \<in> set (results p). graph r = graph t \<and> queryIdx r = queryIdx t"
    unfolding jobs_kept_def by blast
  then show "t \<in> set (tasks ?p') \<or> Querying t \<in> set (workers ?p')
        \<or> (\<exists>r \<in> set (results ?p'). graph r = graph t \<and> queryIdx r = queryIdx t)"
  proof cases
    case queued
    show ?thesis
    proof (cases "workers p ! i")
      case Receiving
      show ?thesis
      proof (cases "tasks p")
        case Nil
        with queued show ?thesis by simp
      next
        case (Cons task rest)
        with Receiving have p': "tasks ?p' = rest" "workers ?p' = (workers p)[i := Querying task]"
          by (simp_all add: worker_step_def)
        from queued Cons have "t = task \<or> t \<in> set rest" by auto
        then show ?thesis
        proof
          assume "t = task"
          with i have "Querying t \<in> set ((workers p)[i := Querying task])"
            by (simp add: set_update_memI)
          with p' show ?thesis by simp
        next
          assume "t \<in> set rest"
          with p' show ?thesis by simp
        qed
      qed
    next
      case (Querying task)
      with queued show ?thesis
        by (simp add: worker_step_def split: sum.splits)
    next
      case Exited
      with queued show ?thesis by (simp add: worker_step_def)
    qed
  next
    case running
    show ?thesis
    proof (cases "workers p ! i = Querying t")
      case True
      with i have "Querying t \<in> set (workers p)" by (metis nth_mem)
      with assms(1) have r: "queryIdx t < length qs" by (simp add: in_range_pool_def)
      from a obtain res where "QuerySparql ask c (graph t) (qs ! queryIdx t) = Inr res" ..
      with True r have "results ?p' = results p @
          [\<lparr>graph = graph t, queryIdx = queryIdx t, numSolutions = length res\<rparr>]"
        by (simp add: worker_step_def)
      then show ?thesis by simp
    next
      case False
      with running have "Querying t \<in> set ((workers p)[i := w])" for w
        by (simp add: stays_in_update)
      with running show ?thesis
        by (simp add: worker_step_def split: worker.splits list.splits sum.splits)
    qed
  next
    case sent
    then have "\<exists>r \<in> set (results ?p'). graph r = graph t \<and> queryIdx r = queryIdx t"
      by (auto simp: worker_step_def split: worker.splits list.splits sum.splits)
    then show ?thesis by simp
  qed
qed


lemma queue_served_start: "queue_served (start ts)"
  by (simp add: queue_served_def start_def)

lemma results_sound_start: "results_sound ask c qs (start ts)"
  by (simp add: results_sound_def start_def)

lemma jobs_kept_start: "jobs_kept ask c qs ts (start ts)"
  by (simp add: jobs_kept_def start_def)

lemma workers_start: "length (workers (start ts)) = 4"
  by (simp add: start_def)

lemma run_workers_final:
  fixes ask c qs sched gs
  defines "p \<equiv> run_workers ask c qs sched (start (jobs qs gs))"
  shows "in_range_pool (length qs) p \<and> queue_served p \<and> results_sound ask c qs p
          \<and> jobs_kept ask c qs (jobs qs gs) p \<and> length (workers p) = 4"
  unfolding p_def
  by (rule run_workers_invariant
        [where P = "\<lambda>p. in_range_pool (length qs) p \<and> queue_served p \<and> results_sound ask c qs p
                      \<and> jobs_kept ask c qs (jobs qs gs) p \<and> length (workers p) = 4"])
     (simp_all add: in_range_pool_start in_range_pool_step queue_served_start queue_served_step
        results_sound_start results_sound_step jobs_kept_start jobs_kept_step workers_start)

lemma job_in_jobs:
  "g \<in> set gs \<Longrightarrow> i < length qs \<Longrightarrow> \<lparr>graph = g, queryIdx = i\<rparr> \<in> set (jobs qs gs)"
  by (auto simp: jobs_def)

text \<open>
  When fewer than four jobs have failed, a worker is left to take every job from the
  queue, and the count of every job the reasoner can answer is in the returned map,
  whatever the order in which the workers ran and whichever case the \<^verbatim>\<open>select\<close>
  took.
\<close>

lemma Qualify_keeps_other_jobs:
  assumes "\<not> flt GraphsQuery"
    and "length (errors (run_workers ask c qs sched
                   (start (jobs qs (remdups (map t_source (triples d))))))) < 4"
    and "g \<in> t_source ` set (triples d)" "i < length qs"
    and "QuerySparql ask c g (qs ! i) = Inr res"
  shows "\<exists>m e cs. Qualify ask flt sched done_first c qs d = Some (m, e)
           \<and> m g = Some cs \<and> length cs = length qs \<and> cs ! i = length res"
proof -
  let ?gs = "remdups (map t_source (triples d))"
  let ?p = "run_workers ask c qs sched (start (jobs qs ?gs))"
  let ?rs = "completed ask c qs sched d"
  have rs: "?rs = results ?p" by (simp add: completed_def)
  from run_workers_final [of qs ask c sched ?gs] have
    rng: "in_range_pool (length qs) ?p" and served: "queue_served ?p"
    and sound: "results_sound ask c qs ?p" and kept: "jobs_kept ask c qs (jobs qs ?gs) ?p"
    and four: "length (workers ?p) = 4"
    by simp_all
  have ex: "live ?p = []" by (rule run_workers_all_exited)
  with four have "count (mset (workers ?p)) Exited = 4" by (simp add: all_exited)
  with served assms(2) have empty: "tasks ?p = []" by (simp add: queue_served_def)
  from ex have none: "Querying t \<notin> set (workers ?p)" for t
    by (auto simp: live_def filter_empty_conv in_set_conv_nth)
  from assms(3,4) have "\<lparr>graph = g, queryIdx = i\<rparr> \<in> set (jobs qs ?gs)"
    by (simp add: job_in_jobs)
  with kept assms(5) empty none have "\<exists>r \<in> set (results ?p). graph r = g \<and> queryIdx r = i"
    unfolding jobs_kept_def by fastforce
  then have ne: "results_for ?rs g i \<noteq> []"
    by (auto simp: results_for_def rs filter_empty_conv)
  then have "last (results_for ?rs g i) \<in> set (results_for ?rs g i)" by simp
  then have l: "last (results_for ?rs g i) \<in> set (results ?p)"
      "graph (last (results_for ?rs g i)) = g" "queryIdx (last (results_for ?rs g i)) = i"
    by (simp_all add: results_for_def rs)
  with sound assms(5) have "numSolutions (last (results_for ?rs g i)) = length res"
    unfolding results_sound_def by fastforce
  with ne have rep: "reported ?rs g i = length res"
    by (cases "results_for ?rs g i") (simp_all add: reported_def)
  from rng have "\<forall>r \<in> set ?rs. queryIdx r < length qs"
    by (simp add: in_range_pool_def rs)
  from drain_empty [OF this] obtain m where
    m: "drain (length qs) ?rs Map.empty = Some m" "dom m = graph ` set ?rs"
    and v: "\<And>g cs. m g = Some cs \<Longrightarrow> length cs = length qs \<and> (\<forall>i < length qs. cs ! i = reported ?rs g i)"
    by blast
  from l(1,2) have "g \<in> graph ` set (results ?p)" by (metis imageI)
  then have "g \<in> graph ` set ?rs" by (simp only: rs)
  with m(2) obtain cs where cs: "m g = Some cs" by auto
  from Qualify_returns [where flt = flt, OF assms(1), of qs ask c sched d done_first] m(1)
  obtain e where "Qualify ask flt sched done_first c qs d = Some (m, e)" by auto
  with cs v [OF cs] assms(4) rep show ?thesis by auto
qed

text \<open>
  Claim C10.  In the map \<^verbatim>\<open>Qualify\<close> returns, the slice of a graph starts as zeros,
  so a job that sent no result is reported as 0, as a query without solutions is; and a
  graph none of whose jobs sent a result is not in the map.

  When the list of graphs can be read, the call returns the map the loop builds from the
  results that were sent: its graphs are the graphs of these results; the slice of a graph
  is as long as the list of queries and holds, for each query, the count of the result
  sent for it, and 0 when none was sent; and for a job without result in a graph of the
  map, a result with the count 0 would have given the same map.
\<close>

theorem Qualify_counts:
  assumes "\<not> flt GraphsQuery"
  shows "\<exists>m e. Qualify ask flt sched done_first c qs d = Some (m, e)
          \<and> drain (length qs) (completed ask c qs sched d) Map.empty = Some m
          \<and> dom m = graph ` set (completed ask c qs sched d)
          \<and> (\<forall>g cs. m g = Some cs \<longrightarrow>
                length cs = length qs
                \<and> (\<forall>i < length qs. cs ! i = reported (completed ask c qs sched d) g i))
          \<and> (\<forall>g i. g \<in> dom m \<and> i < length qs \<and> results_for (completed ask c qs sched d) g i = [] \<longrightarrow>
                reported (completed ask c qs sched d) g i = 0
                \<and> drain (length qs)
                      (completed ask c qs sched d @ [\<lparr>graph = g, queryIdx = i, numSolutions = 0\<rparr>])
                      Map.empty = Some m)"
proof -
  let ?rs = "completed ask c qs sched d"
  from Qualify_returns [where flt = flt, OF assms, of qs ask c sched d done_first] obtain m e where
    m: "drain (length qs) ?rs Map.empty = Some m"
    and q: "Qualify ask flt sched done_first c qs d = Some (m, e)"
    by blast
  have "in_range_pool (length qs)
      (run_workers ask c qs sched (start (jobs qs (remdups (map t_source (triples d))))))"
    by (rule in_range_pool_run)
  then have rng: "\<forall>res \<in> set ?rs. queryIdx res < length qs"
    by (simp add: in_range_pool_def completed_def)
  from drain_empty [OF rng] m have
    d: "dom m = graph ` set ?rs"
    and v: "\<forall>g cs. m g = Some cs \<longrightarrow>
                length cs = length qs \<and> (\<forall>i < length qs. cs ! i = reported ?rs g i)"
    by auto
  have z: "reported ?rs g i = 0
      \<and> drain (length qs) (?rs @ [\<lparr>graph = g, queryIdx = i, numSolutions = 0\<rparr>]) Map.empty = Some m"
    if "g \<in> dom m \<and> i < length qs \<and> results_for ?rs g i = []" for g i
    using that drain_zero_result [OF m rng, of g i] by (simp add: reported_def)
  from q m d v z show ?thesis by blast
qed

lemma graphs_store1: "graphs no_faults store1 = Inr [''g'', ''h'']"
  by (simp add: graphs_def no_faults_def store1_def log0_def tr_def)

lemma run_store1:
  "run_workers ask3 alice [''q1'', ''q2''] [] (start (jobs [''q1'', ''q2''] [''g'', ''h''])) =
     \<lparr>tasks = [], workers = [Exited, Exited, Exited, Exited],
      results = [\<lparr>graph = ''g'', queryIdx = 0, numSolutions = 2\<rparr>,
                 \<lparr>graph = ''h'', queryIdx = 0, numSolutions = 2\<rparr>,
                 \<lparr>graph = ''h'', queryIdx = 1, numSolutions = 2\<rparr>],
      errors = [Upstream ''timeout''], panicked = False\<rparr>"
  by code_simp

lemma completed_store1:
  "completed ask3 alice [''q1'', ''q2''] [] store1 =
     [\<lparr>graph = ''g'', queryIdx = 0, numSolutions = 2\<rparr>,
      \<lparr>graph = ''h'', queryIdx = 0, numSolutions = 2\<rparr>,
      \<lparr>graph = ''h'', queryIdx = 1, numSolutions = 2\<rparr>]"
proof -
  have "remdups (map t_source (triples store1)) = [''g'', ''h'']"
    by (simp add: store1_def log0_def tr_def)
  then show ?thesis by (simp add: completed_def run_store1)
qed

theorem Qualify_counts_witness:
  "\<exists>m e. Qualify ask3 no_faults [] False alice [''q1'', ''q2''] store1 = Some (m, e)
      \<and> m ''g'' = Some [2, 0] \<and> m ''h'' = Some [2, 2] \<and> dom m = {''g'', ''h''}
      \<and> drain 2 [\<lparr>graph = ''g'', queryIdx = 0, numSolutions = 2\<rparr>,
                   \<lparr>graph = ''h'', queryIdx = 0, numSolutions = 2\<rparr>,
                   \<lparr>graph = ''h'', queryIdx = 1, numSolutions = 2\<rparr>,
                   \<lparr>graph = ''g'', queryIdx = 1, numSolutions = 0\<rparr>] Map.empty = Some m"
proof -
  have nf: "\<not> no_faults GraphsQuery" by (simp add: no_faults_def)
  from Qualify_counts [where flt = no_faults, OF nf, of ask3 "[]" False alice "[''q1'', ''q2'']" store1]
  obtain m e where q: "Qualify ask3 no_faults [] False alice [''q1'', ''q2''] store1 = Some (m, e)"
    and dr: "drain (length [''q1'', ''q2'']) (completed ask3 alice [''q1'', ''q2''] [] store1) Map.empty = Some m"
    and d: "dom m = graph ` set (completed ask3 alice [''q1'', ''q2''] [] store1)"
    and z: "\<forall>g i. g \<in> dom m \<and> i < length [''q1'', ''q2'']
              \<and> results_for (completed ask3 alice [''q1'', ''q2''] [] store1) g i = [] \<longrightarrow>
            reported (completed ask3 alice [''q1'', ''q2''] [] store1) g i = 0
            \<and> drain (length [''q1'', ''q2''])
                  (completed ask3 alice [''q1'', ''q2''] [] store1 @
                     [\<lparr>graph = g, queryIdx = i, numSolutions = 0\<rparr>]) Map.empty = Some m"
    by blast
  from d have d': "dom m = {''g'', ''h''}" by (auto simp: completed_store1)
  from dr have "m ''g'' = Some [2, 0] \<and> m ''h'' = Some [2, 2]"
    by (auto simp: completed_store1 record_result_def)
  moreover from z [rule_format, of "''g''" 1] d'
  have "drain 2 [\<lparr>graph = ''g'', queryIdx = 0, numSolutions = 2\<rparr>,
                   \<lparr>graph = ''h'', queryIdx = 0, numSolutions = 2\<rparr>,
                   \<lparr>graph = ''h'', queryIdx = 1, numSolutions = 2\<rparr>,
                   \<lparr>graph = ''g'', queryIdx = 1, numSolutions = 0\<rparr>] Map.empty = Some m"
    by (simp add: completed_store1 results_for_def numeral_2_eq_2)
  ultimately show ?thesis using q d' by blast
qed

text \<open>
  Claim C2.  When a job fails, every result that was sent is in the returned map, and the
  error is returned together with that map.

  The map is as claimed.  The error is not always returned: when the \<^verbatim>\<open>select\<close>
  takes the case \<^verbatim>\<open>done\<close>, which can proceed as soon as the goroutine that closed
  \<^verbatim>\<open>results\<close> waits to send on it, \<^verbatim>\<open>Qualify\<close> returns the map and no error,
  although an error is in the channel.  For the queries \<open>q1\<close> and \<open>q2\<close> on \<open>store1\<close>,
  with a reasoner that fails for \<open>q2\<close> on graph \<open>g\<close>:
\<close>

theorem Qualify_drops_error:
  "errors (run_workers ask3 alice [''q1'', ''q2''] [] (start (jobs [''q1'', ''q2''] [''g'', ''h''])))
     = [Upstream ''timeout'']
   \<and> (\<exists>m. Qualify ask3 no_faults [] True alice [''q1'', ''q2''] store1 = Some (m, None)
          \<and> m ''g'' = Some [2, 0] \<and> m ''h'' = Some [2, 2])
   \<and> (\<exists>m. Qualify ask3 no_faults [] False alice [''q1'', ''q2''] store1 =
            Some (m, Some (Upstream ''timeout''))
          \<and> m ''g'' = Some [2, 0] \<and> m ''h'' = Some [2, 2])"
proof -
  have nf: "\<not> no_faults GraphsQuery" by (simp add: no_faults_def)
  have g: "remdups (map t_source (triples store1)) = [''g'', ''h'']"
    by (simp add: store1_def log0_def tr_def)
  have v: "m ''g'' = Some [2, 0] \<and> m ''h'' = Some [2, 2]"
    if "drain (length [''q1'', ''q2'']) (completed ask3 alice [''q1'', ''q2''] [] store1) Map.empty = Some m"
    for m
    using that by (auto simp: completed_store1 record_result_def)
  from Qualify_returns [where flt = no_faults, OF nf, of "[''q1'', ''q2'']" ask3 alice "[]" store1 True] v
  have 1: "\<exists>m. Qualify ask3 no_faults [] True alice [''q1'', ''q2''] store1 = Some (m, None)
          \<and> m ''g'' = Some [2, 0] \<and> m ''h'' = Some [2, 2]"
    by (auto simp: g run_store1)
  from Qualify_returns [where flt = no_faults, OF nf, of "[''q1'', ''q2'']" ask3 alice "[]" store1 False] v
  have 2: "\<exists>m. Qualify ask3 no_faults [] False alice [''q1'', ''q2''] store1 =
            Some (m, Some (Upstream ''timeout''))
          \<and> m ''g'' = Some [2, 0] \<and> m ''h'' = Some [2, 2]"
    by (auto simp: g run_store1)
  from 1 2 show ?thesis by (simp add: run_store1)
qed

end
